theory Spec2Isabelle
  imports Main "HOL-Library.Sublist"
begin

section \<open>JavaScript values and strings\<close>

text \<open>
  A JavaScript string is a sequence of UTF-16 code units. A code unit is modelled by its
  number, so that the byte order mark U+FEFF and the zero-width characters U+200B..U+200D
  and U+2060, which the repair functions delete, are ordinary elements. \<open>js\<close> turns an
  ASCII literal into such a sequence.
\<close>

type_synonym jchar = nat
type_synonym jsstring = "jchar list"

definition js :: "string \<Rightarrow> jsstring" where
  "js s = map of_char s"

text \<open>
  The values that cross the component's interface: props, callback arguments and the
  fields of an incoming message. \<open>truthy\<close> is JavaScript's ToBoolean on them.
\<close>

datatype jsval =
    JUndefined
  | JNull
  | JBool bool
  | JNum int
  | JStr jsstring
  | JObject

fun truthy :: "jsval \<Rightarrow> bool" where
  "truthy JUndefined = False"
| "truthy JNull = False"
| "truthy (JBool b) = b"
| "truthy (JNum n) = (n \<noteq> 0)"
| "truthy (JStr s) = (s \<noteq> [])"
| "truthy JObject = True"

text \<open>\<open>a || b\<close>\<close>

definition js_or :: "jsval \<Rightarrow> jsval \<Rightarrow> jsval" where
  "js_or a b = (if truthy a then a else b)"

datatype js_error = TypeError | SyntaxError

section \<open>String primitives\<close>

text \<open>
  The code units matched by \<open>\s\<close> in a regular expression and removed by \<open>trim\<close>:
  ECMAScript's WhiteSpace and LineTerminator.
\<close>

definition is_space :: "jchar \<Rightarrow> bool" where
  "is_space c \<longleftrightarrow>
     c = 9 \<or> c = 10 \<or> c = 11 \<or> c = 12 \<or> c = 13 \<or> c = 32 \<or> c = 160 \<or> c = 5760 \<or>
     (8192 \<le> c \<and> c \<le> 8202) \<or> c = 8232 \<or> c = 8233 \<or> c = 8239 \<or> c = 8287 \<or>
     c = 12288 \<or> c = 65279"

definition trimStart :: "jsstring \<Rightarrow> jsstring" where
  "trimStart s = dropWhile is_space s"

definition trimEnd :: "jsstring \<Rightarrow> jsstring" where
  "trimEnd s = rev (dropWhile is_space (rev s))"

definition trim :: "jsstring \<Rightarrow> jsstring" where
  "trim s = trimEnd (trimStart s)"

text \<open>\<open>s.includes(p)\<close>\<close>

fun str_includes :: "jsstring \<Rightarrow> jsstring \<Rightarrow> bool" where
  "str_includes [] p = (p = [])"
| "str_includes (c # cs) p = (prefix p (c # cs) \<or> str_includes cs p)"

text \<open>
  The two replacements that open every transform: first every U+FEFF is deleted, then
  every code unit of the class U+200B..U+200D, U+2060.
\<close>

definition strip_invisible :: "jsstring \<Rightarrow> jsstring" where
  "strip_invisible s =
     filter (\<lambda>c. \<not> ((8203 \<le> c \<and> c \<le> 8205) \<or> c = 8288)) (filter (\<lambda>c. c \<noteq> 65279) s)"

text \<open>
  \<open>toLowerCase\<close> on the letters of Basic Latin and Latin-1; other code units are left
  as they are (JavaScript also maps the letters of the further blocks). The proofs use
  of it only that the image of a code unit that is not white space, not \<open>>\<close> and not one
  of the deleted invisible characters is again such a code unit (\<open>lower_unit_ok\<close>).
\<close>

definition lower_unit :: "jchar \<Rightarrow> jchar" where
  "lower_unit c =
     (if (65 \<le> c \<and> c \<le> 90) \<or> (192 \<le> c \<and> c \<le> 222 \<and> c \<noteq> 215) then c + 32 else c)"

definition toLowerCase :: "jsstring \<Rightarrow> jsstring" where
  "toLowerCase s = map lower_unit s"

text \<open>
  A case-insensitive match of an ASCII literal in a regular expression without the
  \<open>u\<close> flag: only the two ASCII forms of a letter match it.
\<close>

definition ascii_lower :: "jchar \<Rightarrow> jchar" where
  "ascii_lower c = (if 65 \<le> c \<and> c \<le> 90 then c + 32 else c)"

definition ci_prefix :: "jsstring \<Rightarrow> jsstring \<Rightarrow> bool" where
  "ci_prefix p s = prefix (map ascii_lower p) (map ascii_lower s)"

section \<open>JSON.parse\<close>

text \<open>
  \<open>JSON.parse\<close> is the platform's parser. The repair code only asks whether it throws,
  so it is modelled as a recogniser of the JSON grammar of ECMA-404: a pushdown
  automaton that reads the code units from left to right. The stack holds the open
  containers, innermost first.
\<close>

datatype container = InArray | InObject

datatype jtok =
    Value            \<comment> \<open>a value must start here\<close>
  | ArrayStart      \<comment> \<open>after \<open>[\<close>: a value or \<open>]\<close>\<close>
  | ObjectStart     \<comment> \<open>after \<open>{\<close>: a key or \<open>}\<close>\<close>
  | Key             \<comment> \<open>after \<open>,\<close> in an object: a key\<close>
  | Colon           \<comment> \<open>after a key: \<open>:\<close>\<close>
  | After           \<comment> \<open>after a value: \<open>,\<close>, a closer, or the end\<close>
  | InStr bool      \<comment> \<open>inside a string; the flag says it is a key\<close>
  | Escape bool     \<comment> \<open>after a backslash in a string\<close>
  | Hex bool nat    \<comment> \<open>in \<open>\u\<close>: so many hex digits to come\<close>
  | Literal jsstring  \<comment> \<open>the rest of \<open>true\<close>, \<open>false\<close> or \<open>null\<close>\<close>
  | NumMinus | NumZero | NumInt | NumDot | NumFrac | NumE | NumSign | NumExp
  | Reject

definition json_ws :: "jchar \<Rightarrow> bool" where
  "json_ws c \<longleftrightarrow> c = 9 \<or> c = 10 \<or> c = 13 \<or> c = 32"

definition digit :: "jchar \<Rightarrow> bool" where
  "digit c \<longleftrightarrow> 48 \<le> c \<and> c \<le> 57"

definition hexdigit :: "jchar \<Rightarrow> bool" where
  "hexdigit c \<longleftrightarrow> digit c \<or> (65 \<le> c \<and> c \<le> 70) \<or> (97 \<le> c \<and> c \<le> 102)"

text \<open>The start of a value, in a position where one is allowed.\<close>

definition value_start :: "jchar \<Rightarrow> container list \<Rightarrow> jtok \<times> container list" where
  "value_start c st =
     (if c = 34 then (InStr False, st)
      else if c = 91 then (ArrayStart, InArray # st)
      else if c = 123 then (ObjectStart, InObject # st)
      else if c = 45 then (NumMinus, st)
      else if c = 48 then (NumZero, st)
      else if digit c then (NumInt, st)
      else if c = 116 then (Literal (js ''rue''), st)
      else if c = 102 then (Literal (js ''alse''), st)
      else if c = 110 then (Literal (js ''ull''), st)
      else (Reject, st))"

text \<open>After a complete value: white space, a comma, or the closer of the container.\<close>

definition after_value :: "jchar \<Rightarrow> container list \<Rightarrow> jtok \<times> container list" where
  "after_value c st =
     (if json_ws c then (After, st)
      else if c = 44 then
        (case st of [] \<Rightarrow> (Reject, st) | InArray # _ \<Rightarrow> (Value, st) | InObject # _ \<Rightarrow> (Key, st))
      else if c = 93 then
        (case st of InArray # r \<Rightarrow> (After, r) | _ \<Rightarrow> (Reject, st))
      else if c = 125 then
        (case st of InObject # r \<Rightarrow> (After, r) | _ \<Rightarrow> (Reject, st))
      else (Reject, st))"

fun json_step :: "jtok \<times> container list \<Rightarrow> jchar \<Rightarrow> jtok \<times> container list" where
  "json_step (Value, st) c = (if json_ws c then (Value, st) else value_start c st)"
| "json_step (ArrayStart, st) c =
     (if json_ws c then (ArrayStart, st)
      else if c = 93 then (After, tl st)
      else value_start c st)"
| "json_step (ObjectStart, st) c =
     (if json_ws c then (ObjectStart, st)
      else if c = 125 then (After, tl st)
      else if c = 34 then (InStr True, st)
      else (Reject, st))"
| "json_step (Key, st) c =
     (if json_ws c then (Key, st) else if c = 34 then (InStr True, st) else (Reject, st))"
| "json_step (Colon, st) c =
     (if json_ws c then (Colon, st) else if c = 58 then (Value, st) else (Reject, st))"
| "json_step (After, st) c = after_value c st"
| "json_step (InStr k, st) c =
     (if c = 34 then (if k then Colon else After, st)
      else if c = 92 then (Escape k, st)
      else if c < 32 then (Reject, st)
      else (InStr k, st))"
| "json_step (Escape k, st) c =
     (if c = 34 \<or> c = 92 \<or> c = 47 \<or> c = 98 \<or> c = 102 \<or> c = 110 \<or> c = 114 \<or> c = 116
      then (InStr k, st)
      else if c = 117 then (Hex k 4, st)
      else (Reject, st))"
| "json_step (Hex k n, st) c =
     (if hexdigit c then (if n \<le> 1 then InStr k else Hex k (n - 1), st) else (Reject, st))"
| "json_step (Literal r, st) c =
     (case r of
        [] \<Rightarrow> (Reject, st)
      | x # xs \<Rightarrow> if c = x then (if xs = [] then After else Literal xs, st) else (Reject, st))"
| "json_step (NumMinus, st) c =
     (if c = 48 then (NumZero, st) else if digit c then (NumInt, st) else (Reject, st))"
| "json_step (NumZero, st) c =
     (if c = 46 then (NumDot, st)
      else if c = 101 \<or> c = 69 then (NumE, st)
      else after_value c st)"
| "json_step (NumInt, st) c =
     (if digit c then (NumInt, st)
      else if c = 46 then (NumDot, st)
      else if c = 101 \<or> c = 69 then (NumE, st)
      else after_value c st)"
| "json_step (NumDot, st) c = (if digit c then (NumFrac, st) else (Reject, st))"
| "json_step (NumFrac, st) c =
     (if digit c then (NumFrac, st)
      else if c = 101 \<or> c = 69 then (NumE, st)
      else after_value c st)"
| "json_step (NumE, st) c =
     (if c = 43 \<or> c = 45 then (NumSign, st)
      else if digit c then (NumExp, st)
      else (Reject, st))"
| "json_step (NumSign, st) c = (if digit c then (NumExp, st) else (Reject, st))"
| "json_step (NumExp, st) c = (if digit c then (NumExp, st) else after_value c st)"
| "json_step (Reject, st) c = (Reject, st)"

text \<open>The text is accepted when it ends after one complete value with nothing open.\<close>

definition json_final :: "jtok \<times> container list \<Rightarrow> bool" where
  "json_final p \<longleftrightarrow>
     snd p = [] \<and> fst p \<in> {After, NumZero, NumInt, NumFrac, NumExp}"

definition json_accepts :: "jsstring \<Rightarrow> bool" where
  "json_accepts s = json_final (foldl json_step (Value, []) s)"

text \<open>\<open>JSON.parse(s)\<close>: the parsed value is not used, a failure is a \<open>SyntaxError\<close>.\<close>

definition JSON_parse :: "jsstring \<Rightarrow> js_error + unit" where
  "JSON_parse s = (if json_accepts s then Inr () else Inl SyntaxError)"

section \<open>The text repair utility (lib/fixUnclosed)\<close>

subsection \<open>JSON\<close>

definition isLikelyJSON :: "jsstring \<Rightarrow> bool" where
  \<open>isLikelyJSON input =
     (let s = trimStart input in
      if s = [] then False
      else if prefix (js ''{'') s \<or> prefix (js ''['') s then True
      else if str_includes s (js '':{'') \<or> str_includes s (js ''":['') \<or> str_includes s (js ''"type"'')
      then True
      else False)\<close>

text \<open>
  \<open>text.replace(/,(\s*[}\]])/g, '$1')\<close>: a comma followed by white space and a closing
  bracket is deleted. What a match keeps (the white space and the bracket) holds no
  comma, so resuming the search behind the match or behind the comma is the same.
\<close>

definition closer_follows :: "jsstring \<Rightarrow> bool" where
  "closer_follows s =
     (case dropWhile is_space s of [] \<Rightarrow> False | c # _ \<Rightarrow> c = 125 \<or> c = 93)"

fun stripTrailingCommas :: "jsstring \<Rightarrow> jsstring" where
  "stripTrailingCommas [] = []"
| "stripTrailingCommas (c # cs) =
     (if c = 44 \<and> closer_follows cs then stripTrailingCommas cs
      else c # stripTrailingCommas cs)"

text \<open>
  \<open>text.replace(/,\s*$/g, '')\<close>: the first comma after which only white space follows
  up to the end of the text is that text's last comma; it goes with the white space.
\<close>

definition strip_final_comma :: "jsstring \<Rightarrow> jsstring" where
  "strip_final_comma s =
     (case dropWhile is_space (rev s) of
        [] \<Rightarrow> s
      | c # r \<Rightarrow> if c = 44 then rev r else s)"

text \<open>
  The scanning loop of \<open>fixJSONStructure\<close>. The stack of open brackets has its top at
  the head of the list.
\<close>

record jscan =
  stack :: "jchar list"
  inString :: bool
  escaped :: bool

definition jscan_init :: jscan where
  "jscan_init = \<lparr> stack = [], inString = False, escaped = False \<rparr>"

definition jscan_step :: "jscan \<Rightarrow> jchar \<Rightarrow> jscan" where
  "jscan_step s ch =
     (if inString s then
        (if escaped s then s\<lparr>escaped := False\<rparr>
         else if ch = 92 then s\<lparr>escaped := True\<rparr>
         else if ch = 34 then s\<lparr>inString := False\<rparr>
         else s)
      else if ch = 34 then s\<lparr>inString := True, escaped := False\<rparr>
      else if ch = 123 \<or> ch = 91 then s\<lparr>stack := ch # stack s\<rparr>
      else if ch = 125 \<or> ch = 93 then
        (let need = (if ch = 125 then 123 else 91) in
         if stack s \<noteq> [] \<and> hd (stack s) = need then s\<lparr>stack := tl (stack s)\<rparr> else s)
      else s)"

definition closing_bracket :: "jchar \<Rightarrow> jchar" where
  "closing_bracket b = (if b = 123 then 125 else 93)"

definition fixJSONStructure :: "jsstring \<Rightarrow> jsstring" where
  "fixJSONStructure input =
     (let text = stripTrailingCommas (strip_invisible input);
          s = foldl jscan_step jscan_init text;
          text = (if inString s then text @ [34] else text);
          text = strip_final_comma text;
          text = stripTrailingCommas text
      in text @ map closing_bracket (stack s))"

text \<open>The two \<open>try { JSON.parse(\<dots>) } catch {}\<close> blocks are the two case distinctions.\<close>

definition fixJSON :: "jsstring \<Rightarrow> jsstring" where
  "fixJSON input =
     (let raw = trim input in
      if raw = [] then raw
      else case JSON_parse raw of
        Inr _ \<Rightarrow> raw
      | Inl _ \<Rightarrow>
          (let fixed = fixJSONStructure raw in
           case JSON_parse fixed of
             Inr _ \<Rightarrow> fixed
           | Inl _ \<Rightarrow> stripTrailingCommas fixed))"

subsection \<open>XML and HTML\<close>

definition DEFAULT_VOID_TAGS :: "jsstring list" where
  "DEFAULT_VOID_TAGS = map js
     [''area'', ''base'', ''br'', ''col'', ''embed'', ''hr'', ''img'', ''input'', ''link'',
      ''meta'', ''param'', ''source'', ''track'', ''wbr'']"

text \<open>
  The options object: \<open>mode\<close> (absent or empty means \<open>'auto'\<close>), \<open>html\<close> (only the value
  \<open>false\<close> switches the HTML treatment off) and \<open>voidTags\<close>.
\<close>

record opts =
  o_mode :: "jsstring option"
  o_html :: "bool option"
  o_voidTags :: "jsstring list option"

definition no_opts :: opts where
  "no_opts = \<lparr> o_mode = None, o_html = None, o_voidTags = None \<rparr>"

definition voidTags_of :: "opts \<Rightarrow> jsstring list" where
  "voidTags_of opts = (case o_voidTags opts of None \<Rightarrow> DEFAULT_VOID_TAGS | Some v \<Rightarrow> v)"

definition treatAsHTML :: "opts \<Rightarrow> bool" where
  "treatAsHTML opts = (o_html opts \<noteq> Some False)"

definition normalize :: "opts \<Rightarrow> jsstring \<Rightarrow> jsstring" where
  "normalize opts name = (if treatAsHTML opts then toLowerCase name else name)"

text \<open>\<open>s.split(/\s+/)[0]\<close>: what precedes the first white space.\<close>

definition first_word :: "jsstring \<Rightarrow> jsstring" where
  "first_word s = takeWhile (\<lambda>c. \<not> is_space c) s"

text \<open>
  If the last \<open><\<close> of the text has no \<open>>\<close> behind it, one is appended.
\<close>

definition close_half_tag :: "jsstring \<Rightarrow> jsstring" where
  "close_half_tag src =
     (if 60 \<in> set src \<and> 62 \<notin> set (takeWhile (\<lambda>c. c \<noteq> 60) (rev src)) then src @ [62] else src)"

text \<open>
  One \<open>tagRe.exec(text)\<close> with \<open>tagRe = /<([^>]+)>/g\<close>: the leftmost \<open><\<close> that is followed
  by at least one code unit other than \<open>>\<close> and then by a \<open>>\<close>. The result is the text
  before the match, the group, and the text behind the match.
\<close>

fun find_tag :: "jsstring \<Rightarrow> (jsstring \<times> jsstring \<times> jsstring) option" where
  "find_tag [] = None"
| "find_tag (c # cs) =
     (if c = 60 \<and> 62 \<in> set cs \<and> takeWhile (\<lambda>x. x \<noteq> 62) cs \<noteq> []
      then Some ([], takeWhile (\<lambda>x. x \<noteq> 62) cs, tl (dropWhile (\<lambda>x. x \<noteq> 62) cs))
      else map_option (\<lambda>(b, g, a). (c # b, g, a)) (find_tag cs))"

lemma find_tag_shorter: "find_tag s = Some (b, g, a) \<Longrightarrow> length a < length s"
proof (induction s arbitrary: b)
  case Nil
  then show ?case by simp
next
  case (Cons c cs)
  show ?case
  proof (cases "c = 60 \<and> 62 \<in> set cs \<and> takeWhile (\<lambda>x. x \<noteq> 62) cs \<noteq> []")
    case True
    with Cons.prems have "a = tl (dropWhile (\<lambda>x. x \<noteq> 62) cs)" by simp
    moreover have "length (dropWhile (\<lambda>x. x \<noteq> 62) cs) \<le> length cs"
      by (rule length_dropWhile_le)
    ultimately show ?thesis by simp
  next
    case False
    with Cons.prems obtain b' where "find_tag cs = Some (b', g, a)"
      by (auto split: if_splits)
    from Cons.IH [OF this] show ?thesis by simp
  qed
qed

text \<open>The state of the \<open>while\<close> loop: the output so far and the stack of open tags (top first).\<close>

record xscan =
  out :: jsstring
  tags :: "jsstring list"

text \<open>The body of the loop for one match: \<open>pre\<close> is \<open>text.slice(lastIndex, m.index)\<close>,
  \<open>g\<close> is \<open>m[1]\<close>.\<close>

definition is_markup_decl :: "jsstring \<Rightarrow> bool" where
  "is_markup_decl rawTag \<longleftrightarrow>
     prefix (js ''!--'') rawTag \<or> prefix (js ''!DOCTYPE'') rawTag \<or>
     prefix (js ''![CDATA['') rawTag \<or> prefix (js ''?'') rawTag"

definition tag_step :: "opts \<Rightarrow> xscan \<Rightarrow> jsstring \<Rightarrow> jsstring \<Rightarrow> xscan" where
  "tag_step opts s pre g =
     (let rawTag = trim g;
          o1 = out s @ pre @ [60] @ rawTag @ [62]
      in if is_markup_decl rawTag then s\<lparr>out := o1\<rparr>
         else if prefix (js ''/'') rawTag then
           (let name = normalize opts (first_word (drop 1 rawTag)) in
            if tags s \<noteq> [] \<and> normalize opts (hd (tags s)) = name
            then \<lparr>out = o1, tags = tl (tags s)\<rparr> else s\<lparr>out := o1\<rparr>)
         else
           (let selfClosing = (rawTag \<noteq> [] \<and> last rawTag = 47);
                name = normalize opts (first_word rawTag)
            in if \<not> selfClosing \<and> name \<notin> set (voidTags_of opts)
               then \<lparr>out = o1, tags = name # tags s\<rparr> else s\<lparr>out := o1\<rparr>))"

function tag_loop :: "opts \<Rightarrow> xscan \<Rightarrow> jsstring \<Rightarrow> xscan" where
  "tag_loop opts s text =
     (case find_tag text of
        None \<Rightarrow> s\<lparr>out := out s @ text\<rparr>
      | Some (pre, g, rest) \<Rightarrow> tag_loop opts (tag_step opts s pre g) rest)"
  by pat_completeness auto
termination
  by (relation "measure (\<lambda>(opts, s, text). length text)") (auto dest: find_tag_shorter)

definition closing_tag :: "jsstring \<Rightarrow> jsstring" where
  "closing_tag name = js ''</'' @ name @ js ''>''"

definition fixXMLorHTML :: "opts \<Rightarrow> jsstring \<Rightarrow> jsstring" where
  "fixXMLorHTML opts input =
     (let src = strip_invisible input;
          text = close_half_tag src;
          s = tag_loop opts \<lparr>out = [], tags = []\<rparr> text
      in out s @ concat (map closing_tag (tags s)))"

definition mode_of :: "opts \<Rightarrow> jsstring" where
  "mode_of opts = (case o_mode opts of None \<Rightarrow> js ''auto'' | Some m \<Rightarrow> if m = [] then js ''auto'' else m)"

definition fixUnclosed :: "opts \<Rightarrow> jsstring \<Rightarrow> jsstring" where
  "fixUnclosed opts input =
     (let mode = mode_of opts in
      if mode = js ''json'' \<or> (mode = js ''auto'' \<and> isLikelyJSON input) then fixJSON input
      else fixXMLorHTML opts input)"

section \<open>The output post-processor (postProcessDrawioCode)\<close>

text \<open>The first occurrence of a pattern: the text before it and the text behind it.\<close>

fun find_sub :: "jsstring \<Rightarrow> jsstring \<Rightarrow> (jsstring \<times> jsstring) option" where
  "find_sub p [] = (if p = [] then Some ([], []) else None)"
| "find_sub p (c # cs) =
     (if prefix p (c # cs) then Some ([], drop (length p) (c # cs))
      else map_option (\<lambda>(b, a). (c # b, a)) (find_sub p cs))"

definition fence :: jsstring where
  "fence = js ''```''"

text \<open>
  \<open>processed.match(/```\s*xml\s*([\s\S]*?)```/i)\<close>: group 1 of the leftmost match.
  Each \<open>\s*\<close> takes all the white space there is (what follows it starts with a code
  unit that is not white space, or is the lazy group, for which the start makes no
  difference to whether a closing fence follows); the lazy group ends at the first
  closing fence.
\<close>

fun fencedXmlMatch :: "jsstring \<Rightarrow> jsstring option" where
  "fencedXmlMatch [] = None"
| "fencedXmlMatch (c # cs) =
     (let after_fence = dropWhile is_space (drop 3 (c # cs)) in
      if prefix fence (c # cs) \<and> ci_prefix (js ''xml'') after_fence then
        (case find_sub fence (dropWhile is_space (drop 3 after_fence)) of
           Some (body, _) \<Rightarrow> Some body
         | None \<Rightarrow> fencedXmlMatch cs)
      else fencedXmlMatch cs)"

text \<open>\<open>processed.match(/```\s*([\s\S]*?)```/)\<close>\<close>

fun fencedAnyMatch :: "jsstring \<Rightarrow> jsstring option" where
  "fencedAnyMatch [] = None"
| "fencedAnyMatch (c # cs) =
     (if prefix fence (c # cs) then
        (case find_sub fence (dropWhile is_space (drop 3 (c # cs))) of
           Some (body, _) \<Rightarrow> Some body
         | None \<Rightarrow> fencedAnyMatch cs)
      else fencedAnyMatch cs)"

text \<open>The class \<open>[a-z!?]\<close> under the \<open>i\<close> flag.\<close>

definition tag_start_char :: "jchar \<Rightarrow> bool" where
  "tag_start_char c \<longleftrightarrow> (97 \<le> ascii_lower c \<and> ascii_lower c \<le> 122) \<or> c = 33 \<or> c = 63"

text \<open>\<open>/[<][a-z!?]/i.test(s)\<close>\<close>

fun has_raw_tag :: "jsstring \<Rightarrow> bool" where
  "has_raw_tag [] = False"
| "has_raw_tag (c # cs) =
     ((c = 60 \<and> (case cs of [] \<Rightarrow> False | d # _ \<Rightarrow> tag_start_char d)) \<or> has_raw_tag cs)"

text \<open>\<open>/&lt;\s*[a-z!?]/i.test(s)\<close>; the \<open>i\<close> flag also covers the letters of \<open>&lt;\<close>.\<close>

fun has_escaped_tag :: "jsstring \<Rightarrow> bool" where
  "has_escaped_tag [] = False"
| "has_escaped_tag (c # cs) =
     ((ci_prefix (js ''&lt;'') (c # cs) \<and>
       (case dropWhile is_space (drop 4 (c # cs)) of [] \<Rightarrow> False | d # _ \<Rightarrow> tag_start_char d))
      \<or> has_escaped_tag cs)"

text \<open>\<open>s.replace(/p/g, r)\<close> for a literal, non-empty pattern \<open>p\<close>.\<close>

fun replace_all :: "jsstring \<Rightarrow> jsstring \<Rightarrow> jsstring \<Rightarrow> jsstring" where
  "replace_all p r [] = []"
| "replace_all p r (c # cs) =
     (if p \<noteq> [] \<and> prefix p (c # cs) then r @ replace_all p r (drop (length p - 1) cs)
      else c # replace_all p r cs)"

definition decode_entities :: "jsstring \<Rightarrow> jsstring" where
  \<open>decode_entities s =
     replace_all (js ''&#39;'') [39]
       (replace_all (js ''&quot;'') (js ''"'')
          (replace_all (js ''&amp;'') (js ''&'')
             (replace_all (js ''&gt;'') (js ''>'')
                (replace_all (js ''&lt;'') (js ''<'') s))))\<close>

text \<open>
  \<open>processed.search(/<(mxfile|mxGraphModel|diagram)([\s>])/i)\<close>: the index of the
  leftmost match, \<open>None\<close> for \<open>-1\<close>.
\<close>

definition block_start_here :: "jsstring \<Rightarrow> bool" where
  "block_start_here s \<longleftrightarrow>
     (\<exists>name \<in> set [js ''mxfile'', js ''mxGraphModel'', js ''diagram''].
        ci_prefix (60 # name) s \<and>
        (case drop (Suc (length name)) s of [] \<Rightarrow> False | d # _ \<Rightarrow> is_space d \<or> d = 62))"

fun search_block :: "jsstring \<Rightarrow> nat option" where
  "search_block [] = None"
| "search_block (c # cs) =
     (if block_start_here (c # cs) then Some 0 else map_option Suc (search_block cs))"

text \<open>\<open>s.lastIndexOf(c)\<close>\<close>

fun lastIndexOf :: "jsstring \<Rightarrow> jchar \<Rightarrow> nat option" where
  "lastIndexOf [] x = None"
| "lastIndexOf (c # cs) x =
     (case lastIndexOf cs x of
        Some i \<Rightarrow> Some (Suc i)
      | None \<Rightarrow> if c = x then Some 0 else None)"

text \<open>\<open>s.slice(i, j)\<close> for \<open>0 \<le> i\<close>, \<open>0 \<le> j\<close>\<close>

definition slice :: "jsstring \<Rightarrow> nat \<Rightarrow> nat \<Rightarrow> jsstring" where
  "slice s i j = take (j - i) (drop i s)"

definition xml_mode :: opts where
  "xml_mode = \<lparr> o_mode = Some (js ''xml''), o_html = None, o_voidTags = None \<rparr>"

text \<open>
  The function, for a string argument. The empty string is falsy and is returned at
  once.
\<close>

definition postProcessDrawioCode :: "jsstring \<Rightarrow> jsstring" where
  "postProcessDrawioCode code =
     (if code = [] then code
      else
        let processed = strip_invisible code;
            processed =
              (case fencedXmlMatch processed of
                 Some body \<Rightarrow>
                   if body \<noteq> [] then body
                   else (case fencedAnyMatch processed of
                           Some b \<Rightarrow> if b \<noteq> [] then b else processed
                         | None \<Rightarrow> processed)
               | None \<Rightarrow>
                   (case fencedAnyMatch processed of
                      Some b \<Rightarrow> if b \<noteq> [] then b else processed
                    | None \<Rightarrow> processed));
            processed = trim processed;
            processed =
              (if \<not> has_raw_tag processed \<and> has_escaped_tag processed
               then decode_entities processed else processed);
            xmlStart = search_block processed;
            xmlEnd = lastIndexOf processed 62;
            processed =
              (case (xmlStart, xmlEnd) of
                 (Some i, Some j) \<Rightarrow> if j > i then slice processed i (j + 1) else processed
               | _ \<Rightarrow> processed)
        in fixUnclosed xml_mode processed)"

subsection \<open>The steps of the post-processor\<close>

text \<open>
  The stages of \<open>postProcessDrawioCode\<close> as functions of their own. A fenced block
  counts only when its body is not empty.
\<close>

definition fence_body :: "jsstring \<Rightarrow> jsstring" where
  "fence_body t =
     (if fencedXmlMatch t \<noteq> None \<and> fencedXmlMatch t \<noteq> Some [] then the (fencedXmlMatch t)
      else if fencedAnyMatch t \<noteq> None \<and> fencedAnyMatch t \<noteq> Some [] then the (fencedAnyMatch t)
      else t)"

definition decode_if_escaped :: "jsstring \<Rightarrow> jsstring" where
  "decode_if_escaped t = (if \<not> has_raw_tag t \<and> has_escaped_tag t then decode_entities t else t)"

definition keep_block :: "jsstring \<Rightarrow> jsstring" where
  "keep_block t =
     (case search_block t of
        None \<Rightarrow> t
      | Some i \<Rightarrow>
          (case lastIndexOf t 62 of
             None \<Rightarrow> t
           | Some j \<Rightarrow> if i < j then take (Suc j - i) (drop i t) else t))"

text \<open>
  The extraction as the specification words it: strip the invisible characters, take
  the body of the first \<open>```xml\<close> block if there is one, else the body of the first
  fenced block, decode when only escaped tags are present, keep the diagram block,
  repair in xml mode.
\<close>

definition claimed_fence_body :: "jsstring \<Rightarrow> jsstring" where
  "claimed_fence_body t =
     (case fencedXmlMatch t of
        Some body \<Rightarrow> body
      | None \<Rightarrow> (case fencedAnyMatch t of Some body \<Rightarrow> body | None \<Rightarrow> t))"

definition claimed_pipeline :: "jsstring \<Rightarrow> jsstring" where
  "claimed_pipeline s =
     fixUnclosed xml_mode (keep_block (decode_if_escaped (claimed_fence_body (strip_invisible s))))"

section \<open>Well-formed documents\<close>

text \<open>
  What the specification asks of a repaired XML document: the tags nest, and every
  element is closed by a closing tag that carries exactly its name. The check reads the
  tags as the repair does (\<open>find_tag\<close>), but it is strict: character data holds no
  \<open><\<close>, a tag is not empty, a closing tag must name the innermost open element, letter
  case included, and at the end nothing is open. \<open>strict_next\<close> is the effect of one tag on
  the stack of open elements, \<open>None\<close> when the tag is not allowed there.
\<close>

definition strict_next :: "jsstring list \<Rightarrow> jsstring \<Rightarrow> jsstring list option" where
  "strict_next S r =
     (if r = [] then None
      else if is_markup_decl r then Some S
      else if prefix (js ''/'') r then
        (if S \<noteq> [] \<and> hd S = first_word (drop 1 r) then Some (tl S) else None)
      else if last r = 47 then Some S
      else Some (first_word r # S))"

function wellformed_from :: "jsstring list \<Rightarrow> jsstring \<Rightarrow> bool" where
  "wellformed_from S t =
     (case find_tag t of
        None \<Rightarrow> S = [] \<and> 60 \<notin> set t
      | Some (b, g, a) \<Rightarrow>
          60 \<notin> set b \<and>
          (case strict_next S (trim g) of None \<Rightarrow> False | Some S' \<Rightarrow> wellformed_from S' a))"
  by pat_completeness auto
termination
  by (relation "measure (\<lambda>(S, t). length t)") (auto dest: find_tag_shorter)

definition xml_wellformed :: "jsstring \<Rightarrow> bool" where
  "xml_wellformed t = wellformed_from [] t"

text \<open>
  The options that switch the XML treatment on: names are compared as they are written
  (\<open>html: false\<close>) and no element name counts as void.
\<close>

definition strict_xml :: opts where
  "strict_xml = \<lparr> o_mode = Some (js ''xml''), o_html = Some False, o_voidTags = Some [] \<rparr>"

section \<open>The tag loop as functions of the text\<close>

text \<open>
  For the proofs the loop of \<open>fixXMLorHTML\<close> is split into what it writes (\<open>retag\<close>: the
  text with every tag trimmed) and what it leaves on the stack (\<open>open_tags\<close>);
  \<open>push_pop\<close> is the effect of one tag on the stack. \<open>tag_loop_eq\<close> below shows that the
  loop is the pair of the two.
\<close>

definition push_pop :: "opts \<Rightarrow> jsstring list \<Rightarrow> jsstring \<Rightarrow> jsstring list" where
  "push_pop opts S r =
     (if is_markup_decl r then S
      else if prefix (js ''/'') r then
        (if S \<noteq> [] \<and> normalize opts (hd S) = normalize opts (first_word (drop 1 r)) then tl S else S)
      else if \<not> (r \<noteq> [] \<and> last r = 47) \<and> normalize opts (first_word r) \<notin> set (voidTags_of opts)
      then normalize opts (first_word r) # S else S)"

function retag :: "jsstring \<Rightarrow> jsstring" where
  "retag t =
     (case find_tag t of None \<Rightarrow> t | Some (b, g, a) \<Rightarrow> b @ 60 # trim g @ 62 # retag a)"
  by pat_completeness auto
termination
  by (relation "measure length") (auto dest: find_tag_shorter)

function open_tags :: "opts \<Rightarrow> jsstring list \<Rightarrow> jsstring \<Rightarrow> jsstring list" where
  "open_tags opts S t =
     (case find_tag t of None \<Rightarrow> S | Some (b, g, a) \<Rightarrow> open_tags opts (push_pop opts S (trim g)) a)"
  by pat_completeness auto
termination
  by (relation "measure (\<lambda>(opts, S, t). length t)") (auto dest: find_tag_shorter)

text \<open>
  \<open>plain\<close>: every \<open><\<close> is directly followed by \<open>>\<close>, so no tag starts in the text.
  \<open>complete\<close>: every \<open><\<close> has a \<open>>\<close> somewhere behind it, so the text does not end inside
  a tag.
\<close>

fun plain :: "jsstring \<Rightarrow> bool" where
  "plain [] = True"
| "plain (c # cs) = (if c = 60 then cs \<noteq> [] \<and> hd cs = 62 \<and> plain cs else plain cs)"

fun complete :: "jsstring \<Rightarrow> bool" where
  "complete [] = True"
| "complete (c # cs) = (if c = 60 then 62 \<in> set cs \<and> complete cs else complete cs)"

text \<open>
  Code units that \<open>strip_invisible\<close> keeps, and names as they stand on the stack: free of
  white space, of \<open>>\<close> and of invisible code units.
\<close>

definition visible :: "jchar \<Rightarrow> bool" where
  "visible c \<longleftrightarrow> c \<noteq> 65279 \<and> \<not> ((8203 \<le> c \<and> c \<le> 8205) \<or> c = 8288)"

definition okname :: "jsstring \<Rightarrow> bool" where
  "okname n \<longleftrightarrow> (\<forall>c\<in>set n. \<not> is_space c \<and> c \<noteq> 62 \<and> visible c)"

declare retag.simps [simp del] open_tags.simps [simp del] tag_loop.simps [simp del]
  wellformed_from.simps [simp del]

section \<open>Prefixes of JSON documents\<close>

text \<open>
  \<open>json_run\<close> is the state of the recogniser after a text. A prefix of a document is
  \<open>resumable\<close> when it ends where closing what is open gives a document again: after a
  complete value, directly after an opening bracket or brace, inside a string that is a
  value, or after a comma.
\<close>

definition json_run :: "jsstring \<Rightarrow> jtok \<times> container list" where
  "json_run s = foldl json_step (Value, []) s"

definition value_done :: "jtok \<Rightarrow> bool" where
  "value_done tok \<longleftrightarrow> tok = After \<or> tok = NumZero \<or> tok = NumInt \<or> tok = NumFrac \<or> tok = NumExp"

definition resumable :: "jsstring \<Rightarrow> bool" where
  "resumable raw =
     (case json_run raw of
        (tok, st) \<Rightarrow>
          value_done tok \<or> tok = ArrayStart \<or> tok = ObjectStart \<or> tok = InStr False \<or>
          ((tok = Value \<or> tok = Key) \<and> raw \<noteq> [] \<and> last raw = 44))"

text \<open>
  For the proofs: the recogniser has not failed (\<open>viable\<close>); what every reachable state
  satisfies (\<open>good\<close>); the states inside a string; the bracket that the scan of
  \<open>fixJSONStructure\<close> keeps for an open container, and the relation \<open>sim\<close> between the
  two scans.
\<close>

abbreviation viable :: "jtok \<times> container list \<Rightarrow> bool" where
  "viable p \<equiv> fst p \<noteq> Reject"

fun good :: "jtok \<times> container list \<Rightarrow> bool" where
  "good (ArrayStart, st) = (st \<noteq> [] \<and> hd st = InArray)"
| "good (ObjectStart, st) = (st \<noteq> [] \<and> hd st = InObject)"
| "good (Literal r, st) = (\<forall>x\<in>set r. 97 \<le> x \<and> x \<le> 122)"
| "good (_, st) = True"

fun in_str :: "jtok \<Rightarrow> bool" where
  "in_str (InStr k) = True"
| "in_str (Escape k) = True"
| "in_str (Hex k n) = True"
| "in_str _ = False"

fun is_esc :: "jtok \<Rightarrow> bool" where
  "is_esc (Escape k) = True"
| "is_esc _ = False"

definition bracket_of :: "container \<Rightarrow> jchar" where
  "bracket_of c = (case c of InArray \<Rightarrow> 91 | InObject \<Rightarrow> 123)"

definition sim :: "jtok \<times> container list \<Rightarrow> jscan \<Rightarrow> bool" where
  "sim \<sigma> j \<longleftrightarrow>
     stack j = map bracket_of (snd \<sigma>) \<and> inString j = in_str (fst \<sigma>) \<and>
     (if in_str (fst \<sigma>) then escaped j = is_esc (fst \<sigma>) else True)"

section \<open>The editor bridge (components/DrawioCanvas.jsx)\<close>

text \<open>
  The component keeps three state cells: \<open>isReady\<close> (initially false), \<open>isLoading\<close>
  (initially true) and \<open>error\<close> (initially null).
\<close>

record bridge =
  isReady :: bool
  isLoading :: bool
  error :: jsval

definition bridge_init :: bridge where
  "bridge_init = \<lparr> isReady = False, isLoading = True, error = JNull \<rparr>"

text \<open>
  The object handed to \<open>JSON.stringify\<close> and posted to the iframe. The fields are those
  of the three object literals in the source.
\<close>

datatype message =
    LoadMsg jsval nat      \<comment> \<open>\<open>{action: 'load', xml, autosave}\<close>\<close>
  | ExportMsg jsval        \<comment> \<open>\<open>{action: 'export', format}\<close>\<close>
  | MergeMsg jsval         \<comment> \<open>\<open>{action: 'merge', xml}\<close>\<close>

definition editor_origin :: jsstring where
  "editor_origin = js ''https://embed.diagrams.net''"

definition default_diagram :: jsstring where
  \<open>default_diagram =
     js ''<mxGraphModel><root><mxCell id="0"/><mxCell id="1" parent="0"/></root></mxGraphModel>''\<close>

text \<open>What a call leaves behind outside the component state.\<close>

datatype effect =
    Posted message jsstring   \<comment> \<open>\<open>contentWindow.postMessage(JSON.stringify(m), targetOrigin)\<close>\<close>
  | SaveCalled jsval          \<comment> \<open>\<open>onSave(data.xml)\<close>\<close>
  | ErrorCalled jsval         \<comment> \<open>\<open>onError(errorMsg)\<close>\<close>
  | Logged

text \<open>
  \<open>sendLoadMessage\<close>, \<open>exportDiagram\<close> and \<open>mergeDiagram\<close> are \<open>useCallback\<close> closures
  with dependency \<open>[isReady]\<close>: the \<open>isReady\<close> they test is the one of the render that
  created them. The first argument says whether \<open>iframeRef.current\<close> is set, the second is
  that captured flag. \<open>None\<close> is the early \<open>return\<close>.
\<close>

definition sendLoadMessage :: "bool \<Rightarrow> bool \<Rightarrow> jsval \<Rightarrow> effect option" where
  "sendLoadMessage iframe ready xmlData =
     (if \<not> iframe \<or> \<not> ready then None
      else Some (Posted (LoadMsg (js_or xmlData (JStr default_diagram)) 1) editor_origin))"

text \<open>\<open>format = 'png'\<close>: the default applies when the argument is \<open>undefined\<close>.\<close>

definition exportDiagram :: "bool \<Rightarrow> bool \<Rightarrow> jsval \<Rightarrow> effect option" where
  "exportDiagram iframe ready format =
     (if \<not> iframe \<or> \<not> ready then None
      else Some (Posted (ExportMsg (if format = JUndefined then JStr (js ''png'') else format))
                   editor_origin))"

definition mergeDiagram :: "bool \<Rightarrow> bool \<Rightarrow> jsval \<Rightarrow> effect option" where
  "mergeDiagram iframe ready xmlData =
     (if \<not> iframe \<or> \<not> ready then None
      else Some (Posted (MergeMsg xmlData) editor_origin))"

text \<open>
  An incoming \<open>message\<close> event. \<open>data\<close> is a string, an object with the fields the
  handler reads, \<open>null\<close> (whose \<open>typeof\<close> is \<open>'object'\<close>, so that \<open>data.event\<close> throws), or
  anything else.
\<close>

record msgobj =
  m_event :: jsval
  m_xml :: jsval
  m_exit :: jsval
  m_message :: jsval

datatype evdata =
    DStr jsstring
  | DObj msgobj
  | DNull
  | DOther

record event =
  origin :: jsstring
  data :: evdata

text \<open>
  What \<open>handleMessage\<close> works with: the props \<open>xml\<close>, \<open>onSave\<close>, \<open>onError\<close> of the render
  that created it (the last two as "is a function given"), whether \<open>iframeRef.current\<close> is
  set, and the \<open>isReady\<close> captured by the \<open>sendLoadMessage\<close> of that render, which is the
  one it calls.
\<close>

record closure =
  c_iframe :: bool
  c_xml :: jsval
  c_onSave :: bool
  c_onError :: bool
  c_ready :: bool

definition opt_list :: "'a option \<Rightarrow> 'a list" where
  "opt_list x = (case x of None \<Rightarrow> [] | Some e \<Rightarrow> [e])"

text \<open>The \<open>switch (data.event)\<close>; \<open>case\<close> labels compare with \<open>===\<close>.\<close>

definition handleObject :: "closure \<Rightarrow> msgobj \<Rightarrow> bridge \<Rightarrow> bridge \<times> effect list" where
  "handleObject c d b =
     (if m_event d = JStr (js ''init'') then
        (b\<lparr>isReady := True, isLoading := False\<rparr>,
         if c_iframe c \<and> truthy (c_xml c)
         then opt_list (sendLoadMessage (c_iframe c) (c_ready c) (c_xml c)) else [])
      else if m_event d = JStr (js ''load'') then (b, [Logged])
      else if m_event d = JStr (js ''save'') then
        (b, (if c_onSave c \<and> truthy (m_xml d) then [SaveCalled (m_xml d)] else [])
            @ (if truthy (m_exit d) then [Logged] else []))
      else if m_event d = JStr (js ''exit'') then (b, [Logged])
      else if m_event d = JStr (js ''autosave'') then
        (b, if c_onSave c \<and> truthy (m_xml d) then [SaveCalled (m_xml d)] else [])
      else if m_event d = JStr (js ''export'') then (b, [Logged])
      else if m_event d = JStr (js ''error'') then
        (let errorMsg = js_or (m_message d) (JStr (js ''Unknown error occurred''))
         in (b\<lparr>error := errorMsg\<rparr>, if c_onError c then [ErrorCalled errorMsg] else []))
      else (b, [Logged]))"

definition handleMessage :: "closure \<Rightarrow> event \<Rightarrow> bridge \<Rightarrow> js_error + bridge \<times> effect list" where
  "handleMessage c ev b =
     (if origin ev \<noteq> editor_origin then Inr (b, [])
      else case data ev of
        DStr s \<Rightarrow>
          if s = js ''ready'' then Inr (b\<lparr>isReady := True, isLoading := False\<rparr>, [])
          else Inr (b, [])
      | DObj d \<Rightarrow> Inr (handleObject c d b)
      | DNull \<Rightarrow> Inl TypeError
      | DOther \<Rightarrow> Inr (b, []))"

subsection \<open>Runs of the component\<close>

text \<open>
  A run interleaves incoming events, calls of the three senders, and renders. A render
  runs the component function again. The senders are rebuilt when \<open>isReady\<close> changed, so
  from then on they test the current flag (\<open>senders\<close>). \<open>handleMessage\<close> is rebuilt only
  when one of \<open>xml\<close>, \<open>onSave\<close>, \<open>onError\<close> changed (the last argument of \<open>Render\<close> says
  that a callback is a new function); otherwise the old closure stays, with the
  \<open>sendLoadMessage\<close> it captured. The effect \<open>if (isReady && xml) sendLoadMessage(xml)\<close>
  runs when one of its dependencies changed. An exception thrown by the handler leaves
  the state as it is.
\<close>

datatype action =
    Receive event
  | CallLoad jsval
  | CallExport jsval
  | CallMerge jsval
  | Render jsval bool bool bool
      \<comment> \<open>props \<open>xml\<close>, \<open>onSave\<close>, \<open>onError\<close> of this render; a callback is a new function\<close>

record sys =
  comp :: bridge
  clo :: closure
  senders :: bool
  trail :: "effect list"

definition sys_init :: "jsval \<Rightarrow> bool \<Rightarrow> bool \<Rightarrow> sys" where
  "sys_init x s e =
     \<lparr> comp = bridge_init,
       clo = \<lparr> c_iframe = True, c_xml = x, c_onSave = s, c_onError = e, c_ready = False \<rparr>,
       senders = False,
       trail = [] \<rparr>"

definition render_effect :: "sys \<Rightarrow> jsval \<Rightarrow> effect list" where
  "render_effect s x =
     (if (isReady (comp s) \<noteq> senders s \<or> x \<noteq> c_xml (clo s)) \<and> isReady (comp s) \<and> truthy x
      then opt_list (sendLoadMessage (c_iframe (clo s)) (isReady (comp s)) x) else [])"

definition render_closure :: "sys \<Rightarrow> jsval \<Rightarrow> bool \<Rightarrow> bool \<Rightarrow> bool \<Rightarrow> closure" where
  "render_closure s x sv er fresh =
     (if x \<noteq> c_xml (clo s) \<or> sv \<noteq> c_onSave (clo s) \<or> er \<noteq> c_onError (clo s) \<or> fresh
      then (clo s)\<lparr>c_xml := x, c_onSave := sv, c_onError := er, c_ready := isReady (comp s)\<rparr>
      else clo s)"

fun step :: "sys \<Rightarrow> action \<Rightarrow> sys" where
  "step s (Receive ev) =
     (case handleMessage (clo s) ev (comp s) of
        Inl _ \<Rightarrow> s
      | Inr (b, es) \<Rightarrow> s\<lparr>comp := b, trail := trail s @ es\<rparr>)"
| "step s (CallLoad x) =
     s\<lparr>trail := trail s @ opt_list (sendLoadMessage (c_iframe (clo s)) (senders s) x)\<rparr>"
| "step s (CallExport f) =
     s\<lparr>trail := trail s @ opt_list (exportDiagram (c_iframe (clo s)) (senders s) f)\<rparr>"
| "step s (CallMerge x) =
     s\<lparr>trail := trail s @ opt_list (mergeDiagram (c_iframe (clo s)) (senders s) x)\<rparr>"
| "step s (Render x sv er fresh) =
     s\<lparr>clo := render_closure s x sv er fresh,
       senders := isReady (comp s),
       trail := trail s @ render_effect s x\<rparr>"

definition run :: "sys \<Rightarrow> action list \<Rightarrow> sys" where
  "run s as = foldl step s as"

text \<open>The events by which the editor signals readiness.\<close>

definition ready_signal :: "action \<Rightarrow> bool" where
  "ready_signal a =
     (case a of
        Receive ev \<Rightarrow>
          origin ev = editor_origin \<and>
          (case data ev of
             DStr s \<Rightarrow> s = js ''ready''
           | DObj d \<Rightarrow> m_event d = JStr (js ''init'')
           | _ \<Rightarrow> False)
      | _ \<Rightarrow> False)"

definition is_posted :: "effect \<Rightarrow> bool" where
  "is_posted e = (case e of Posted _ _ \<Rightarrow> True | _ \<Rightarrow> False)"

text \<open>
  The invariant of a run: the state flag is set only after a readiness signal, the flag
  a closure captured is never ahead of the state, and nothing is posted while the state
  flag is false.
\<close>

definition run_inv :: "action list \<Rightarrow> sys \<Rightarrow> bool" where
  "run_inv as s \<longleftrightarrow>
     (isReady (comp s) \<longrightarrow> (\<exists>a\<in>set as. ready_signal a)) \<and>
     (c_ready (clo s) \<longrightarrow> isReady (comp s)) \<and>
     (senders s \<longrightarrow> isReady (comp s)) \<and>
     ((\<exists>e\<in>set (trail s). is_posted e) \<longrightarrow> isReady (comp s))"

text \<open>Sample events: one from a foreign origin, and the two readiness signals.\<close>

definition foreign_event :: event where
  "foreign_event = \<lparr> origin = js ''https://evil.example'',
     data = DObj \<lparr> m_event = JStr (js ''init''), m_xml = JUndefined, m_exit = JUndefined,
                   m_message = JUndefined \<rparr> \<rparr>"

definition ready_event :: event where
  "ready_event = \<lparr> origin = editor_origin, data = DStr (js ''ready'') \<rparr>"

definition init_event :: event where
  "init_event = \<lparr> origin = editor_origin,
     data = DObj \<lparr> m_event = JStr (js ''init''), m_xml = JUndefined, m_exit = JUndefined,
                   m_message = JUndefined \<rparr> \<rparr>"

section \<open>Properties of the editor bridge\<close>

lemma opt_list_simps:
  "opt_list None = []" "opt_list (Some e) = [e]"
  by (simp_all add: opt_list_def)

lemma handleMessage_foreign:
  "origin ev \<noteq> editor_origin \<Longrightarrow> handleMessage c ev b = Inr (b, [])"
  by (simp add: handleMessage_def)

lemma step_foreign:
  "origin ev \<noteq> editor_origin \<Longrightarrow> step s (Receive ev) = s"
  by (simp add: handleMessage_foreign)

lemma senders_not_ready:
  "sendLoadMessage i False x = None"
  "exportDiagram i False f = None"
  "mergeDiagram i False x = None"
  by (simp_all add: sendLoadMessage_def exportDiagram_def mergeDiagram_def)

lemma senders_posted:
  "sendLoadMessage i r x = Some e \<Longrightarrow> r \<and> is_posted e"
  "exportDiagram i r f = Some e \<Longrightarrow> r \<and> is_posted e"
  "mergeDiagram i r x = Some e \<Longrightarrow> r \<and> is_posted e"
  by (auto simp: sendLoadMessage_def exportDiagram_def mergeDiagram_def is_posted_def
           split: if_splits)

lemma opt_list_sender:
  "e \<in> set (opt_list (sendLoadMessage i r x)) \<Longrightarrow> r"
  "e \<in> set (opt_list (exportDiagram i r f)) \<Longrightarrow> r"
  "e \<in> set (opt_list (mergeDiagram i r x)) \<Longrightarrow> r"
  by (auto simp: opt_list_def sendLoadMessage_def exportDiagram_def mergeDiagram_def
           split: option.splits if_splits)

lemma handleObject_effects:
  "handleObject c d b = (b', es) \<Longrightarrow> e \<in> set es \<Longrightarrow> is_posted e \<Longrightarrow> c_ready c"
  by (auto simp: handleObject_def Let_def is_posted_def dest: opt_list_sender
           split: if_splits)

lemma handleObject_ready:
  "handleObject c d b = (b', es) \<Longrightarrow>
     isReady b' = (isReady b \<or> m_event d = JStr (js ''init''))"
  by (auto simp: handleObject_def Let_def split: if_splits)

lemma handleMessage_ready:
  assumes "handleMessage c ev b = Inr (b', es)"
  shows "isReady b' = (isReady b \<or> ready_signal (Receive ev))"
proof (cases "origin ev = editor_origin")
  case False
  with assms show ?thesis by (simp add: handleMessage_def ready_signal_def)
next
  case True
  show ?thesis
  proof (cases "data ev")
    case (DStr s)
    with assms True show ?thesis
      by (auto simp: handleMessage_def ready_signal_def split: if_splits)
  next
    case (DObj d)
    with assms True have "handleObject c d b = (b', es)"
      by (simp add: handleMessage_def)
    from handleObject_ready [OF this] DObj True show ?thesis
      by (simp add: ready_signal_def)
  next
    case DNull
    with assms True show ?thesis by (simp add: handleMessage_def)
  next
    case DOther
    with assms True show ?thesis by (simp add: handleMessage_def ready_signal_def)
  qed
qed

lemma handleMessage_effects:
  assumes "handleMessage c ev b = Inr (b', es)" "e \<in> set es" "is_posted e"
  shows "c_ready c"
proof (cases "data ev")
  case (DObj d)
  with assms(1,2) have "handleObject c d b = (b', es)"
    by (auto simp: handleMessage_def split: if_splits)
  from handleObject_effects [OF this assms(2,3)] show ?thesis .
qed (use assms in \<open>auto simp: handleMessage_def split: if_splits\<close>)

lemma step_inv:
  assumes "run_inv as s"
  shows "run_inv (as @ [a]) (step s a)"
proof (cases a)
  case (Receive ev)
  show ?thesis
  proof (cases "handleMessage (clo s) ev (comp s)")
    case (Inl err)
    with assms Receive show ?thesis by (auto simp: run_inv_def)
  next
    case (Inr p)
    obtain b' es where p: "p = (b', es)" by (cases p)
    note h = Inr [unfolded p]
    from handleMessage_ready [OF h] handleMessage_effects [OF h] assms Receive h
    show ?thesis by (auto simp: run_inv_def)
  qed
next
  case (CallLoad x)
  with assms show ?thesis by (auto simp: run_inv_def dest: opt_list_sender)
next
  case (CallExport f)
  with assms show ?thesis by (auto simp: run_inv_def dest: opt_list_sender)
next
  case (CallMerge x)
  with assms show ?thesis by (auto simp: run_inv_def dest: opt_list_sender)
next
  case (Render x sv er fresh)
  with assms show ?thesis
    by (auto simp: run_inv_def render_effect_def render_closure_def dest: opt_list_sender
             split: if_splits)
qed

lemma run_snoc: "run s (as @ [a]) = step (run s as) a"
  by (simp add: run_def)

lemma run_append: "run s (as @ bs) = run (run s as) bs"
  by (simp add: run_def)

lemma run_inv_init: "run_inv as (run (sys_init x sv er) as)"
proof (induction as rule: rev_induct)
  case Nil
  show ?case by (simp add: run_inv_def run_def sys_init_def bridge_init_def)
next
  case (snoc a as)
  from step_inv [OF snoc] show ?case by (simp add: run_snoc)
qed

lemma js_inject: "(js a = js b) = (a = b)"
proof -
  have "inj (of_char :: char \<Rightarrow> nat)"
    by (rule injI) simp
  then show ?thesis
    unfolding js_def by simp
qed

lemma foreign_origin: "origin foreign_event \<noteq> editor_origin"
  by (simp add: foreign_event_def editor_origin_def js_inject)

text \<open>
  The \<open>init\<close> event sets the flag, but the \<open>sendLoadMessage\<close> that the handler calls
  still holds the old flag: the diagram is loaded by the effect of the next render.
\<close>

lemma init_then_render:
  "trail (run (sys_init (JStr (js ''<a/>'')) True True) [Receive init_event]) = [] \<and>
   trail (run (sys_init (JStr (js ''<a/>'')) True True)
      [Receive init_event, Render (JStr (js ''<a/>'')) True True False])
     = [Posted (LoadMsg (JStr (js ''<a/>'')) 1) editor_origin]"
  by (simp add: run_def sys_init_def bridge_init_def init_event_def handleMessage_def
      handleObject_def render_effect_def render_closure_def sendLoadMessage_def opt_list_def
      js_or_def js_def)

text \<open>
  C8. An incoming event whose origin is not exactly \<open>https://embed.diagrams.net\<close> has no
  effect: \<open>handleMessage\<close> returns with the state (\<open>isReady\<close>, \<open>isLoading\<close>, \<open>error\<close>)
  unchanged and neither \<open>onSave\<close> nor \<open>onError\<close> invoked (no effect at all), and two runs
  that differ only by the insertion of such an event end in the same state with the same
  emitted messages.
\<close>

theorem foreign_origin_ignored:
  "origin ev \<noteq> editor_origin \<Longrightarrow>
     handleMessage c ev b = Inr (b, []) \<and>
     run s (as @ Receive ev # bs) = run s (as @ bs)"
proof -
  assume f: "origin ev \<noteq> editor_origin"
  have "run s (as @ Receive ev # bs) = run (step (run s as) (Receive ev)) bs"
    by (simp add: run_def)
  also have "\<dots> = run s (as @ bs)"
    by (simp only: step_foreign [OF f] run_append)
  finally show ?thesis
    using handleMessage_foreign [OF f] by simp
qed

theorem foreign_origin_ignored_witness:
  "origin foreign_event \<noteq> editor_origin \<and>
   handleMessage (clo (sys_init (JStr (js ''<a/>'')) True True)) foreign_event bridge_init
     = Inr (bridge_init, []) \<and>
   run (sys_init (JStr (js ''<a/>'')) True True)
       ([Receive ready_event] @ Receive foreign_event # [CallLoad JUndefined])
     = run (sys_init (JStr (js ''<a/>'')) True True) ([Receive ready_event] @ [CallLoad JUndefined])"
  using foreign_origin_ignored [OF foreign_origin] foreign_origin by blast

text \<open>
  C9. No message is posted to the editor iframe before the editor has signalled
  readiness (an \<open>init\<close> protocol event or the legacy \<open>ready\<close> string from the expected
  origin). A sender whose \<open>isReady\<close> is false returns at once; in every run from the
  initial state, while the state flag \<open>isReady\<close> is false every call of
  \<open>sendLoadMessage\<close>, \<open>exportDiagram\<close> and \<open>mergeDiagram\<close> is a no-op, and a posted
  message is preceded by a readiness signal.
\<close>

theorem no_post_before_ready:
  "(\<not> ready \<longrightarrow>
      sendLoadMessage i ready x = None \<and> exportDiagram i ready f = None \<and>
      mergeDiagram i ready x = None) \<and>
   (\<not> isReady (comp (run (sys_init px sv er) as)) \<longrightarrow>
      trail (step (run (sys_init px sv er) as) (CallLoad x)) = trail (run (sys_init px sv er) as) \<and>
      trail (step (run (sys_init px sv er) as) (CallExport f)) = trail (run (sys_init px sv er) as) \<and>
      trail (step (run (sys_init px sv er) as) (CallMerge x)) = trail (run (sys_init px sv er) as)) \<and>
   ((\<exists>e\<in>set (trail (run (sys_init px sv er) as)). is_posted e) \<longrightarrow>
      (\<exists>a\<in>set as. ready_signal a))"
proof -
  from run_inv_init [of as px sv er]
  have inv: "senders (run (sys_init px sv er) as) \<longrightarrow> isReady (comp (run (sys_init px sv er) as))"
    and post: "(\<exists>e\<in>set (trail (run (sys_init px sv er) as)). is_posted e) \<longrightarrow>
      (\<exists>a\<in>set as. ready_signal a)"
    by (auto simp: run_inv_def)
  from inv have "\<not> isReady (comp (run (sys_init px sv er) as)) \<Longrightarrow>
      \<not> senders (run (sys_init px sv er) as)" by blast
  then show ?thesis using post
    by (simp add: senders_not_ready opt_list_simps)
qed

theorem no_post_before_ready_witness:
  "sendLoadMessage True False (JStr (js ''<a/>'')) = None \<and>
   exportDiagram True False JUndefined = None \<and>
   mergeDiagram True False (JStr (js ''<a/>'')) = None \<and>
   \<not> isReady (comp (run (sys_init (JStr (js ''<a/>'')) True True) [CallLoad JNull])) \<and>
   trail (step (run (sys_init (JStr (js ''<a/>'')) True True) [CallLoad JNull])
            (CallLoad (JStr (js ''<a/>'')))) = [] \<and>
   (\<exists>e\<in>set (trail (run (sys_init (JStr (js ''<a/>'')) True True)
        [Receive ready_event, Render (JStr (js ''<a/>'')) True True False])). is_posted e) \<and>
   (\<exists>a\<in>set [Receive ready_event, Render (JStr (js ''<a/>'')) True True False]. ready_signal a)"
proof -
  have p: "\<exists>e\<in>set (trail (run (sys_init (JStr (js ''<a/>'')) True True)
        [Receive ready_event, Render (JStr (js ''<a/>'')) True True False])). is_posted e"
    by (simp add: run_def sys_init_def bridge_init_def ready_event_def handleMessage_def
        render_effect_def render_closure_def sendLoadMessage_def opt_list_def is_posted_def
        js_or_def js_def)
  have q: "\<not> isReady (comp (run (sys_init (JStr (js ''<a/>'')) True True) [CallLoad JNull]))"
    "trail (run (sys_init (JStr (js ''<a/>'')) True True) [CallLoad JNull]) = []"
    by (simp_all add: run_def sys_init_def bridge_init_def sendLoadMessage_def opt_list_def)
  from no_post_before_ready [of False True "JStr (js ''<a/>'')" JUndefined
      "JStr (js ''<a/>'')" True True
      "[Receive ready_event, Render (JStr (js ''<a/>'')) True True False]"]
    no_post_before_ready [of False True "JStr (js ''<a/>'')" JUndefined
      "JStr (js ''<a/>'')" True True "[CallLoad JNull]"] p q
  show ?thesis by metis
qed

text \<open>
  C10. When \<open>sendLoadMessage\<close> is invoked after readiness with an empty or otherwise
  falsy \<open>xmlData\<close>, the posted load action carries the default empty diagram document,
  not an empty xml payload.
\<close>

theorem load_default_diagram:
  "\<not> truthy x \<Longrightarrow>
     sendLoadMessage True True x =
       Some (Posted (LoadMsg (JStr default_diagram) 1) editor_origin)"
  by (simp add: sendLoadMessage_def js_or_def)

theorem load_default_diagram_witness:
  \<open>\<not> truthy (JStr []) \<and>
   sendLoadMessage True True (JStr []) =
     Some (Posted (LoadMsg (JStr (js
       ''<mxGraphModel><root><mxCell id="0"/><mxCell id="1" parent="0"/></root></mxGraphModel>'')) 1)
       (js ''https://embed.diagrams.net''))\<close>
  using load_default_diagram [of "JStr []"]
  by (simp add: default_diagram_def editor_origin_def)




section \<open>Properties of the text repair\<close>

lemmas string_defs =
  js_def is_space_def trimStart_def trimEnd_def trim_def strip_invisible_def
  lower_unit_def toLowerCase_def ascii_lower_def ci_prefix_def

lemmas json_defs =
  json_accepts_def json_final_def value_start_def after_value_def json_ws_def digit_def
  hexdigit_def JSON_parse_def

lemmas repair_defs =
  isLikelyJSON_def closer_follows_def strip_final_comma_def jscan_init_def jscan_step_def
  closing_bracket_def fixJSONStructure_def fixJSON_def DEFAULT_VOID_TAGS_def no_opts_def
  voidTags_of_def treatAsHTML_def normalize_def first_word_def close_half_tag_def
  is_markup_decl_def tag_step_def tag_loop.simps closing_tag_def fixXMLorHTML_def mode_of_def
  fixUnclosed_def

lemma JSON_parse_cases: "JSON_parse x = Inr () \<or> JSON_parse x = Inl SyntaxError"
  by (simp add: JSON_parse_def)

lemma JSON_parse_accepts: "(JSON_parse x = Inr ()) = json_accepts x"
  by (simp add: JSON_parse_def)

lemma JSON_parse_Nil: "JSON_parse [] = Inl SyntaxError"
  by (simp add: json_defs)

lemma fixJSON_cases:
  "fixJSON s =
     (if trim s = [] then []
      else if JSON_parse (trim s) = Inr () then trim s
      else if JSON_parse (fixJSONStructure (trim s)) = Inr () then fixJSONStructure (trim s)
      else stripTrailingCommas (fixJSONStructure (trim s)))"
  using JSON_parse_cases [of "trim s"] JSON_parse_cases [of "fixJSONStructure (trim s)"]
  by (auto simp: fixJSON_def Let_def)

text \<open>
  C1 as stated fails. \<open>{"a":\<close> is a prefix of the well-formed document \<open>{"a":1}\<close>;
  \<open>fixJSON\<close> closes the brace and returns \<open>{"a":}\<close>, which \<open>JSON.parse\<close> rejects.
\<close>

theorem fixJSON_prefix_not_wellformed:
  \<open>JSON_parse (js ''{"a":1}'') = Inr () \<and>
   prefix (js ''{"a":'') (js ''{"a":1}'') \<and>
   fixJSON (js ''{"a":'') = js ''{"a":}'' \<and>
   JSON_parse (fixJSON (js ''{"a":'')) = Inl SyntaxError\<close>
  by (simp add: string_defs json_defs repair_defs)

text \<open>
  C5. \<open>fixJSON\<close> and \<open>fixUnclosed\<close> return a string on every input: the two
  \<open>JSON.parse\<close> failures are caught, and each of the four ways through \<open>fixJSON\<close> ends
  in a string. When the trimmed input is not empty and both it and the structurally
  repaired text fail \<open>JSON.parse\<close>, the result is the repaired text with the trailing
  commas before closers stripped once more. \<open>fixUnclosed\<close> returns what \<open>fixJSON\<close> or
  \<open>fixXMLorHTML\<close> returns. (The loops of the model are total functions: the scan of
  \<open>fixJSONStructure\<close> is a fold, \<open>tag_loop\<close> has a termination proof.)
\<close>

theorem repair_returns_best_effort:
  "fixJSON s =
     (if trim s = [] then []
      else if JSON_parse (trim s) = Inr () then trim s
      else if JSON_parse (fixJSONStructure (trim s)) = Inr () then fixJSONStructure (trim s)
      else stripTrailingCommas (fixJSONStructure (trim s))) \<and>
   (trim s \<noteq> [] \<and> JSON_parse (trim s) = Inl SyntaxError \<and>
    JSON_parse (fixJSONStructure (trim s)) = Inl SyntaxError \<longrightarrow>
      fixJSON s = stripTrailingCommas (fixJSONStructure (trim s))) \<and>
   (fixUnclosed opts s = fixJSON s \<or> fixUnclosed opts s = fixXMLorHTML opts s)"
  by (simp add: fixJSON_cases fixUnclosed_def Let_def)

theorem repair_returns_best_effort_witness:
  \<open>trim (js ''[1,,,,] '') = js ''[1,,,,]'' \<and>
   JSON_parse (js ''[1,,,,]'') = Inl SyntaxError \<and>
   fixJSONStructure (js ''[1,,,,]'') = js ''[1,,]'' \<and>
   JSON_parse (js ''[1,,]'') = Inl SyntaxError \<and>
   fixJSON (js ''[1,,,,] '') = js ''[1,]''\<close>
proof -
  have 1: \<open>trim (js ''[1,,,,] '') = js ''[1,,,,]''\<close>
    by (simp add: string_defs)
  have 2: \<open>JSON_parse (js ''[1,,,,]'') = Inl SyntaxError\<close>
    by (simp add: js_def json_defs)
  have 3: \<open>fixJSONStructure (js ''[1,,,,]'') = js ''[1,,]''\<close>
    by (simp add: string_defs repair_defs)
  have 4: \<open>JSON_parse (js ''[1,,]'') = Inl SyntaxError\<close>
    by (simp add: js_def json_defs)
  have 5: \<open>stripTrailingCommas (js ''[1,,]'') = js ''[1,]''\<close>
    by (simp add: string_defs repair_defs)
  from repair_returns_best_effort [of \<open>js ''[1,,,,] ''\<close> no_opts]
  have \<open>fixJSON (js ''[1,,,,] '') = js ''[1,]''\<close>
    by (simp only: 1 2 3 4 5) (simp add: js_def)
  with 1 2 3 4 show ?thesis by simp
qed

text \<open>
  C6. When the trimmed input is accepted by \<open>JSON.parse\<close>, \<open>fixJSON\<close> returns the
  trimmed input unchanged.
\<close>

theorem fixJSON_keeps_wellformed:
  "JSON_parse (trim s) = Inr () \<Longrightarrow> fixJSON s = trim s"
  using JSON_parse_Nil by (auto simp: fixJSON_def Let_def)

theorem fixJSON_keeps_wellformed_witness:
  \<open>JSON_parse (trim (js '' {"a": [1, 2.5e3, "x,]", null]} '')) = Inr () \<and>
   fixJSON (js '' {"a": [1, 2.5e3, "x,]", null]} '') = js ''{"a": [1, 2.5e3, "x,]", null]}''\<close>
proof -
  have 1: \<open>trim (js '' {"a": [1, 2.5e3, "x,]", null]} '') = js ''{"a": [1, 2.5e3, "x,]", null]}''\<close>
    by (simp add: string_defs)
  have 2: \<open>JSON_parse (js ''{"a": [1, 2.5e3, "x,]", null]}'') = Inr ()\<close>
    by (simp add: js_def json_defs)
  from fixJSON_keeps_wellformed [of \<open>js '' {"a": [1, 2.5e3, "x,]", null]} ''\<close>] 1 2
  show ?thesis by simp
qed

section \<open>Properties of the post-processor\<close>

lemma fence_step_eq:
  "(case fencedXmlMatch p of
      Some body \<Rightarrow>
        if body \<noteq> [] then body
        else (case fencedAnyMatch p of Some b \<Rightarrow> if b \<noteq> [] then b else p | None \<Rightarrow> p)
    | None \<Rightarrow> (case fencedAnyMatch p of Some b \<Rightarrow> if b \<noteq> [] then b else p | None \<Rightarrow> p))
   = fence_body p"
  by (simp add: fence_body_def split: option.splits)

lemma block_step_eq:
  "(case (search_block t, lastIndexOf t 62) of
      (Some i, Some j) \<Rightarrow> if j > i then slice t i (j + 1) else t
    | _ \<Rightarrow> t) = keep_block t"
  by (simp add: keep_block_def slice_def split: option.splits)

lemma fixXMLorHTML_Nil: "fixXMLorHTML opts [] = []"
  by (simp add: fixXMLorHTML_def strip_invisible_def close_half_tag_def tag_loop.simps)

lemma postProcess_steps:
  "postProcessDrawioCode s =
     fixUnclosed xml_mode (keep_block (decode_if_escaped (trim (fence_body (strip_invisible s)))))"
proof (cases "s = []")
  case True
  have "fixUnclosed xml_mode [] = []"
    by (simp add: fixUnclosed_def xml_mode_def mode_of_def js_def fixXMLorHTML_Nil)
  with True show ?thesis
    by (simp add: postProcessDrawioCode_def strip_invisible_def fence_body_def trim_def
        trimStart_def trimEnd_def decode_if_escaped_def keep_block_def)
next
  case False
  then show ?thesis
    unfolding postProcessDrawioCode_def Let_def fence_step_eq block_step_eq decode_if_escaped_def
    by simp
qed

text \<open>
  C4 as stated fails: the listed steps leave out that the text is trimmed after the
  fence step, and that a fenced block with an empty body is passed over. On \<open>" <a/> "\<close>
  the function returns \<open>"<a/>"\<close>, the listed steps keep the surrounding blanks; on an
  empty \<open>```xml\<close> block the function falls back to the first fenced block of any kind,
  whose body is \<open>xml\<close>, the listed steps give the empty body.
\<close>

theorem postProcess_not_as_listed:
  \<open>postProcessDrawioCode (js '' <a/> '') = js ''<a/>'' \<and>
   claimed_pipeline (js '' <a/> '') = js '' <a/> '' \<and>
   postProcessDrawioCode (js ''```xml```'') = js ''xml'' \<and>
   claimed_pipeline (js ''```xml```'') = []\<close>
proof -
  have 1: \<open>strip_invisible (js '' <a/> '') = js '' <a/> ''\<close>
    \<open>strip_invisible (js ''```xml```'') = js ''```xml```''\<close>
    by (simp_all add: string_defs)
  have 2: \<open>fence_body (js '' <a/> '') = js '' <a/> ''\<close>
    \<open>claimed_fence_body (js '' <a/> '') = js '' <a/> ''\<close>
    \<open>fence_body (js ''```xml```'') = js ''xml''\<close>
    \<open>claimed_fence_body (js ''```xml```'') = []\<close>
    by (simp_all add: fence_body_def claimed_fence_body_def js_def fence_def ci_prefix_def
        ascii_lower_def is_space_def)
  have 3: \<open>trim (js '' <a/> '') = js ''<a/>''\<close> \<open>trim (js ''xml'') = js ''xml''\<close>
    by (simp_all add: string_defs)
  have 4: \<open>decode_if_escaped (js ''<a/>'') = js ''<a/>''\<close>
    \<open>decode_if_escaped (js '' <a/> '') = js '' <a/> ''\<close>
    \<open>decode_if_escaped (js ''xml'') = js ''xml''\<close>
    \<open>decode_if_escaped [] = []\<close>
    by (simp_all add: decode_if_escaped_def js_def tag_start_char_def ascii_lower_def
        ci_prefix_def)
  have 5: \<open>keep_block (js ''<a/>'') = js ''<a/>''\<close> \<open>keep_block (js '' <a/> '') = js '' <a/> ''\<close>
    \<open>keep_block (js ''xml'') = js ''xml''\<close> \<open>keep_block [] = []\<close>
    by (simp_all add: keep_block_def js_def block_start_here_def ci_prefix_def ascii_lower_def)
  have 6: \<open>fixUnclosed xml_mode (js ''<a/>'') = js ''<a/>''\<close>
    \<open>fixUnclosed xml_mode (js '' <a/> '') = js '' <a/> ''\<close>
    \<open>fixUnclosed xml_mode (js ''xml'') = js ''xml''\<close>
    \<open>fixUnclosed xml_mode [] = []\<close>
    by (simp_all add: string_defs repair_defs xml_mode_def)
  show ?thesis
    by (simp only: postProcess_steps claimed_pipeline_def 1 2 3 4 5 6)
qed

text \<open>
  C4, amended. For every string, \<open>postProcessDrawioCode\<close> is the composition of these
  steps in this order: delete the byte order mark and the zero-width characters; take
  the body of the first \<open>```xml\<close> fenced block if it is not empty, else the non-empty body
  of the first fenced block of any kind, else the whole text; trim the white space at
  both ends; if the text has no raw tag start but an escaped one, replace \<open>&lt;\<close>,
  \<open>&gt;\<close>, \<open>&amp;\<close>, \<open>&quot;\<close>, \<open>&#39;\<close>, one after the other in this order; keep the
  substring from the first \<open><mxfile\<close>, \<open><mxGraphModel\<close> or \<open><diagram\<close> tag through the last
  \<open>>\<close> when that \<open>>\<close> lies behind the tag's start; apply \<open>fixUnclosed\<close> in xml mode.
\<close>

theorem postProcess_pipeline:
  "postProcessDrawioCode s =
     fixUnclosed xml_mode (keep_block (decode_if_escaped (trim (fence_body (strip_invisible s)))))"
  by (rule postProcess_steps)

section \<open>Properties of the tag scanner\<close>

subsection \<open>White space and trimming\<close>

lemma set_trim: "set (trim g) \<subseteq> set g"
proof -
  have "set (rev (dropWhile is_space (rev (dropWhile is_space g)))) \<subseteq> set (dropWhile is_space g)"
    using set_dropWhileD [of _ is_space "rev (dropWhile is_space g)"] by auto
  also have "\<dots> \<subseteq> set g"
    using set_dropWhileD [of _ is_space g] by auto
  finally show ?thesis by (simp add: trim_def trimStart_def trimEnd_def)
qed

lemma trim_ends: "trim g = [] \<or> (\<not> is_space (hd (trim g)) \<and> \<not> is_space (last (trim g)))"
proof (cases "dropWhile is_space g = []")
  case True
  have "trim g = []"
    unfolding trim_def trimStart_def trimEnd_def True by simp
  then show ?thesis by simp
next
  case False
  define h where "h = dropWhile is_space g"
  define d where "d = dropWhile is_space (rev h)"
  from False have h: "h \<noteq> []" "\<not> is_space (hd h)"
    by (simp_all add: h_def hd_dropWhile)
  then have "\<not> (\<forall>x\<in>set (rev h). is_space x)"
    by (metis hd_in_set set_rev)
  then have d: "d \<noteq> []" by (simp add: d_def dropWhile_eq_Nil_conv)
  then have hd_d: "\<not> is_space (hd d)" by (simp add: d_def hd_dropWhile)
  have "last d = last (rev h)"
    using d unfolding d_def
    by (metis append_Nil2 last_appendR takeWhile_dropWhile_id)
  then have last_d: "last d = hd h" using h by (simp add: last_rev)
  have t: "trim g = rev d" by (simp add: trim_def trimStart_def trimEnd_def h_def d_def)
  from d have "hd (rev d) = last d" "last (rev d) = hd d"
    by (simp_all add: hd_rev last_rev)
  with t h hd_d last_d d show ?thesis by simp
qed

lemma trim_fixed: "r = [] \<or> (\<not> is_space (hd r) \<and> \<not> is_space (last r)) \<Longrightarrow> trim r = r"
proof (cases "r = []")
  case True
  then show ?thesis by (simp add: trim_def trimStart_def trimEnd_def)
next
  case False
  assume "r = [] \<or> (\<not> is_space (hd r) \<and> \<not> is_space (last r))"
  with False have a: "\<not> is_space (hd r)" "\<not> is_space (last r)" by simp_all
  from False a(1) have 1: "dropWhile is_space r = r" by (cases r) simp_all
  from False a(2) have 2: "dropWhile is_space (rev r) = rev r"
    by (cases "rev r") (simp_all add: last_rev [symmetric] hd_rev)
  show ?thesis by (simp add: trim_def trimStart_def trimEnd_def 1 2)
qed

lemma trim_trim: "trim (trim g) = trim g"
  by (rule trim_fixed) (rule trim_ends)

subsection \<open>Matching a tag\<close>




lemma find_tag_plain:
  "plain p \<Longrightarrow>
     find_tag (p @ u) = (case find_tag u of None \<Rightarrow> None | Some (b, g, a) \<Rightarrow> Some (p @ b, g, a))"
proof (induction p)
  case Nil
  show ?case by (simp split: option.splits)
next
  case (Cons c cs)
  then have IH: "find_tag (cs @ u) =
      (case find_tag u of None \<Rightarrow> None | Some (b, g, a) \<Rightarrow> Some (cs @ b, g, a))"
    by (simp split: if_splits)
  show ?case
  proof (cases "c = 60")
    case True
    with Cons.prems obtain cs' where "cs = 62 # cs'" by (cases cs) auto
    then show ?thesis using True IH
      by (simp split: option.splits)
  next
    case False
    then show ?thesis using IH
      by (simp split: option.splits)
  qed
qed

lemma find_tag_plain_None: "plain p \<Longrightarrow> find_tag p = None"
  using find_tag_plain [of p "[]"] by simp

lemma takeWhile_upto: "x \<notin> set g \<Longrightarrow> takeWhile (\<lambda>y. y \<noteq> x) (g @ x # u) = g"
  by (induction g) auto

lemma dropWhile_upto: "x \<notin> set g \<Longrightarrow> dropWhile (\<lambda>y. y \<noteq> x) (g @ x # u) = x # u"
  by (induction g) auto

lemma find_tag_here:
  "g \<noteq> [] \<Longrightarrow> 62 \<notin> set g \<Longrightarrow> find_tag (60 # g @ 62 # u) = Some ([], g, u)"
proof -
  assume g: "g \<noteq> []" "62 \<notin> set g"
  then have "takeWhile (\<lambda>x. x \<noteq> 62) (g @ 62 # u) = g" "dropWhile (\<lambda>x. x \<noteq> 62) (g @ 62 # u) = 62 # u"
    by (simp_all add: takeWhile_upto dropWhile_upto)
  with g show ?thesis by simp
qed

lemma find_tag_Some:
  "find_tag t = Some (b, g, a) \<Longrightarrow>
     t = b @ 60 # g @ 62 # a \<and> g \<noteq> [] \<and> 62 \<notin> set g \<and> plain b"
proof (induction t arbitrary: b)
  case Nil
  then show ?case by simp
next
  case (Cons c cs)
  show ?case
  proof (cases "c = 60 \<and> 62 \<in> set cs \<and> takeWhile (\<lambda>x. x \<noteq> 62) cs \<noteq> []")
    case True
    with Cons.prems have e: "b = []" "g = takeWhile (\<lambda>x. x \<noteq> 62) cs"
      "a = tl (dropWhile (\<lambda>x. x \<noteq> 62) cs)" by simp_all
    from True have "dropWhile (\<lambda>x. x \<noteq> 62) cs \<noteq> []" by (simp add: dropWhile_eq_Nil_conv)
    moreover from this have "hd (dropWhile (\<lambda>x. x \<noteq> 62) cs) = 62"
      using hd_dropWhile [of "\<lambda>x. x \<noteq> 62" cs] by simp
    ultimately have "dropWhile (\<lambda>x. x \<noteq> 62) cs = 62 # a"
      unfolding e by (cases "dropWhile (\<lambda>x. x \<noteq> 62) cs") simp_all
    then have "cs = g @ 62 # a"
      unfolding e(2) by (metis takeWhile_dropWhile_id)
    moreover have "62 \<notin> set g" unfolding e(2) by (auto dest: set_takeWhileD)
    ultimately show ?thesis using True e by simp
  next
    case False
    with Cons.prems obtain b' where f: "find_tag cs = Some (b', g, a)" and b: "b = c # b'"
      by (auto split: if_splits)
    from Cons.IH [OF f] have IH: "cs = b' @ 60 # g @ 62 # a" "g \<noteq> []" "62 \<notin> set g" "plain b'"
      by simp_all
    have "c = 60 \<Longrightarrow> cs \<noteq> [] \<and> hd cs = 62 \<and> b' \<noteq> []"
    proof -
      assume c: "c = 60"
      from IH(1) have in_cs: "62 \<in> set cs" by simp
      with False c have "takeWhile (\<lambda>x. x \<noteq> 62) cs = []" by simp
      then have h: "cs \<noteq> [] \<and> hd cs = 62" using in_cs
        by (cases cs) (auto split: if_splits)
      moreover have "b' \<noteq> []"
      proof
        assume "b' = []"
        with IH(1) have "hd cs = 60" by simp
        with h show False by simp
      qed
      ultimately show ?thesis by simp
    qed
    moreover have "c = 60 \<Longrightarrow> hd b' = hd cs" using IH(1) calculation by (cases b') auto
    ultimately have "plain (c # b')" using IH(4) by auto
    with IH b show ?thesis by simp
  qed
qed

lemma complete_suffix: "complete (x @ y) \<Longrightarrow> complete y"
  by (induction x) (auto split: if_splits)


lemma complete_snoc_gt: "complete (x @ [62])"
  by (induction x) auto

lemma find_tag_None_plain: "find_tag t = None \<Longrightarrow> complete t \<Longrightarrow> plain t"
proof (induction t)
  case Nil
  show ?case by simp
next
  case (Cons c cs)
  from Cons.prems(1) have n: "find_tag cs = None" by (auto split: if_splits)
  from Cons.prems(2) have "complete cs" by (auto split: if_splits)
  with Cons.IH n have p: "plain cs" by simp
  show ?case
  proof (cases "c = 60")
    case True
    with Cons.prems(2) have i: "62 \<in> set cs" by simp
    with Cons.prems(1) True have "takeWhile (\<lambda>x. x \<noteq> 62) cs = []" by (auto split: if_splits)
    with i have "cs \<noteq> [] \<and> hd cs = 62" by (cases cs) (auto split: if_splits)
    with p True show ?thesis by simp
  next
    case False
    with p show ?thesis by simp
  qed
qed

lemma close_half_tag_complete: "close_half_tag t = (if complete t then t else t @ [62])"
proof -
  have "complete t \<longleftrightarrow> \<not> (60 \<in> set t \<and> 62 \<notin> set (takeWhile (\<lambda>c. c \<noteq> 60) (rev t)))"
  proof (induction t)
    case Nil
    show ?case by simp
  next
    case (Cons c cs)
    show ?case
    proof (cases "60 \<in> set cs")
      case True
      then have "takeWhile (\<lambda>c. c \<noteq> 60) (rev cs @ [c]) = takeWhile (\<lambda>c. c \<noteq> 60) (rev cs)"
        by (simp add: takeWhile_append1)
      moreover have "complete cs \<Longrightarrow> 62 \<in> set cs"
        using True by (induction cs) (auto split: if_splits)
      ultimately show ?thesis using Cons True by auto
    next
      case False
      then have "60 \<notin> set (rev cs)" by simp
      then have t: "takeWhile (\<lambda>c. c \<noteq> 60) (rev cs @ [c]) = rev cs @ (if c \<noteq> 60 then [c] else [])"
        using takeWhile_upto [of 60 "rev cs" "[]"]
        by (cases "c = 60") (auto simp: takeWhile_append2)
      from False have "complete cs" by (induction cs) auto
      with False t show ?thesis by auto
    qed
  qed
  then show ?thesis by (auto simp: close_half_tag_def)
qed


subsection \<open>The loop as two functions of the text\<close>

lemma tag_step_eq:
  "tag_step opts s b g = \<lparr>out = out s @ b @ 60 # trim g @ [62], tags = push_pop opts (tags s) (trim g)\<rparr>"
  by (simp add: tag_step_def push_pop_def Let_def)

lemma tag_loop_eq:
  "tag_loop opts s t = \<lparr>out = out s @ retag t, tags = open_tags opts (tags s) t\<rparr>"
proof (induction opts s t rule: tag_loop.induct)
  case (1 opts s u)
  show ?case
  proof (cases "find_tag u")
    case None
    then show ?thesis
      by (simp add: tag_loop.simps [of opts s u] retag.simps [of u]
          open_tags.simps [of opts _ u])
  next
    case (Some p)
    obtain b g a where p: "p = (b, g, a)" by (cases p)
    from "1.IH" [OF Some [unfolded p] refl refl] Some p show ?thesis
      by (simp add: tag_loop.simps [of opts s u] retag.simps [of u]
          open_tags.simps [of opts _ u] tag_step_eq)
  qed
qed

lemma fixXMLorHTML_eq:
  "fixXMLorHTML opts x =
     retag (close_half_tag (strip_invisible x)) @
     concat (map closing_tag (open_tags opts [] (close_half_tag (strip_invisible x))))"
  by (simp add: fixXMLorHTML_def Let_def tag_loop_eq)





subsection \<open>Names on the stack\<close>

lemma lower_unit_ok:
  "\<not> is_space c \<Longrightarrow> c \<noteq> 62 \<Longrightarrow> visible c \<Longrightarrow>
     \<not> is_space (lower_unit c) \<and> lower_unit c \<noteq> 62 \<and> visible (lower_unit c)"
  by (auto simp: lower_unit_def is_space_def visible_def)

lemma okname_normalize: "okname n \<Longrightarrow> okname (normalize opts n)"
  by (auto simp: okname_def normalize_def toLowerCase_def dest: lower_unit_ok)

lemma okname_first_word:
  "62 \<notin> set r \<Longrightarrow> \<forall>c\<in>set r. visible c \<Longrightarrow> okname (first_word r)"
  by (auto simp: okname_def first_word_def dest: set_takeWhileD)

lemma first_word_okname: "okname n \<Longrightarrow> first_word n = n"
  by (simp add: okname_def first_word_def)

lemma push_pop_okname:
  assumes "\<forall>n\<in>set S. okname n" "62 \<notin> set r" "\<forall>c\<in>set r. visible c"
  shows "\<forall>n\<in>set (push_pop opts S r). okname n"
proof -
  have "okname (normalize opts (first_word r))"
    using assms(2,3) by (intro okname_normalize okname_first_word)
  moreover have "\<forall>n\<in>set (tl S). okname n"
    using assms(1) by (cases S) auto
  ultimately show ?thesis using assms(1)
    by (auto simp: push_pop_def)
qed

lemma is_space_47: "\<not> is_space 47"
  by (simp add: is_space_def)

lemma trim_closer: "okname n \<Longrightarrow> trim (47 # n) = 47 # n"
proof (rule trim_fixed)
  assume "okname n"
  then have "\<not> is_space (last (47 # n))"
    by (cases "n = []") (auto simp: okname_def is_space_47)
  then show "47 # n = [] \<or> (\<not> is_space (hd (47 # n)) \<and> \<not> is_space (last (47 # n)))"
    by (simp add: is_space_47)
qed


lemma closing_tag_eq: "closing_tag n = 60 # (47 # n) @ [62]"
  by (simp add: closing_tag_def js_def)

subsection \<open>Reading the appended closing tags\<close>







subsection \<open>Scanning the repaired text again\<close>


lemma find_tag_parts:
  assumes "find_tag t = Some (b, g, a)" "complete t"
  shows "plain b" "g \<noteq> []" "62 \<notin> set g" "62 \<notin> set (trim g)" "complete a"
    "set b \<subseteq> set t" "set g \<subseteq> set t" "set a \<subseteq> set t"
proof -
  from find_tag_Some [OF assms(1)]
  have t: "t = b @ 60 # g @ 62 # a" and g: "g \<noteq> []" "62 \<notin> set g" and b: "plain b"
    by simp_all
  from t have "t = (b @ 60 # g @ [62]) @ a" by simp
  with assms(2) show "complete a" using complete_suffix by metis
  from g set_trim [of g] show "62 \<notin> set (trim g)" by auto
  from t show "set b \<subseteq> set t" "set g \<subseteq> set t" "set a \<subseteq> set t" by auto
  from g b show "plain b" "g \<noteq> []" "62 \<notin> set g" by simp_all
qed

lemma retag_Some:
  "find_tag t = Some (b, g, a) \<Longrightarrow> retag t = b @ 60 # trim g @ 62 # retag a"
  by (simp add: retag.simps [of t])

lemma retag_None: "find_tag t = None \<Longrightarrow> retag t = t"
  by (simp add: retag.simps [of t])

lemma open_tags_Some:
  "find_tag t = Some (b, g, a) \<Longrightarrow> open_tags opts S t = open_tags opts (push_pop opts S (trim g)) a"
  by (simp add: open_tags.simps [of opts S t])

lemma open_tags_None: "find_tag t = None \<Longrightarrow> open_tags opts S t = S"
  by (simp add: open_tags.simps [of opts S t])






lemma strip_invisible_visible: "\<forall>c\<in>set (strip_invisible x). visible c"
  by (auto simp: strip_invisible_def visible_def)


lemma close_half_tag_facts:
  "complete (close_half_tag t)" "set (close_half_tag t) \<subseteq> set t \<union> {62}"
  by (auto simp: close_half_tag_complete complete_snoc_gt)





subsection \<open>The strict reading of the repaired text\<close>

lemma wellformed_Some:
  "find_tag t = Some (b, g, a) \<Longrightarrow>
     wellformed_from S t =
       (60 \<notin> set b \<and> (\<exists>S'. strict_next S (trim g) = Some S' \<and> wellformed_from S' a))"
  by (simp add: wellformed_from.simps [of S t] split: option.splits)

lemma wellformed_None: "find_tag t = None \<Longrightarrow> wellformed_from S t = (S = [] \<and> 60 \<notin> set t)"
  by (simp add: wellformed_from.simps [of S t])

lemma no_lt_plain: "60 \<notin> set p \<Longrightarrow> plain p"
  by (induction p) auto

lemma find_tag_append:
  assumes "find_tag p = Some (b, g, a)"
  shows "find_tag (p @ rest) = Some (b, g, a @ rest)"
proof -
  from find_tag_Some [OF assms]
  have p: "p = b @ 60 # g @ 62 # a" and g: "g \<noteq> []" "62 \<notin> set g" and b: "plain b"
    by simp_all
  have "find_tag (b @ 60 # g @ 62 # (a @ rest)) = Some (b @ [], g, a @ rest)"
    by (simp only: find_tag_plain [OF b] find_tag_here [OF g]) simp
  then show ?thesis by (simp add: p)
qed

lemma strict_push_pop:
  "push_pop strict_xml S r =
     (if is_markup_decl r then S
      else if prefix (js ''/'') r then (if S \<noteq> [] \<and> hd S = first_word (drop 1 r) then tl S else S)
      else if \<not> (r \<noteq> [] \<and> last r = 47) then first_word r # S else S)"
  by (simp add: push_pop_def strict_xml_def normalize_def treatAsHTML_def voidTags_of_def)

lemma strict_next_push_pop:
  assumes "strict_next S r = Some S'"
  shows "push_pop strict_xml S r = S'"
proof -
  from assms have r: "r \<noteq> []" by (auto simp: strict_next_def)
  show ?thesis
  proof (cases "is_markup_decl r")
    case True
    with assms r show ?thesis by (simp add: strict_next_def strict_push_pop)
  next
    case False
    note decl = this
    show ?thesis
    proof (cases "prefix (js ''/'') r")
      case True
      with assms r decl show ?thesis
        by (simp add: strict_next_def strict_push_pop split: if_splits)
    next
      case False
      with assms r decl show ?thesis
        by (simp add: strict_next_def strict_push_pop split: if_splits)
    qed
  qed
qed

lemma strict_next_closer:
  "okname n \<Longrightarrow> strict_next (n # S) (47 # n) = Some S"
  by (simp add: strict_next_def is_markup_decl_def js_def first_word_okname)

lemma wellformed_closers:
  "60 \<notin> set p \<Longrightarrow> \<forall>n\<in>set S. okname n \<Longrightarrow>
     wellformed_from S (p @ concat (map closing_tag S))"
proof (induction S arbitrary: p)
  case Nil
  then have "find_tag p = None" by (intro find_tag_plain_None no_lt_plain)
  with Nil show ?case by (simp add: wellformed_None)
next
  case (Cons n S)
  then have n: "okname n" and S: "\<forall>n\<in>set S. okname n" by simp_all
  let ?C = "concat (map closing_tag S)"
  from n have g: "47 # n \<noteq> []" "62 \<notin> set (47 # n)" by (auto simp: okname_def)
  have "find_tag (p @ 60 # (47 # n) @ 62 # ?C) = Some (p @ [], 47 # n, ?C)"
    by (simp only: find_tag_plain [OF no_lt_plain [OF Cons.prems(1)]] find_tag_here [OF g]) simp
  then have f: "find_tag (p @ concat (map closing_tag (n # S))) = Some (p, 47 # n, ?C)"
    by (simp add: closing_tag_eq)
  from Cons.IH [of "[]", OF _ S] have "wellformed_from S ?C" by simp
  with Cons.prems(1) n show ?case
    unfolding wellformed_Some [OF f] by (simp add: trim_closer strict_next_closer)
qed

lemma wellformed_repair:
  "complete p \<Longrightarrow> wellformed_from S (p @ rest) \<Longrightarrow> \<forall>n\<in>set S. okname n \<Longrightarrow>
   \<forall>c\<in>set p. visible c \<Longrightarrow>
     wellformed_from S (retag p @ concat (map closing_tag (open_tags strict_xml S p)))"
proof (induction strict_xml S p rule: open_tags.induct)
  case (1 S p)
  show ?case
  proof (cases "find_tag p")
    case None
    from find_tag_None_plain [OF None "1.prems"(1)] have pl: "plain p" .
    have "60 \<notin> set p"
    proof (cases "find_tag rest")
      case None
      with find_tag_plain [OF pl, of rest] have "find_tag (p @ rest) = None" by simp
      with "1.prems"(2) show ?thesis by (simp add: wellformed_None)
    next
      case (Some q)
      obtain b g a where q: "q = (b, g, a)" by (cases q)
      with Some find_tag_plain [OF pl, of rest] have "find_tag (p @ rest) = Some (p @ b, g, a)"
        by simp
      with "1.prems"(2) show ?thesis by (simp add: wellformed_Some)
    qed
    from wellformed_closers [OF this "1.prems"(3)] None show ?thesis
      by (simp add: retag_None open_tags_None)
  next
    case (Some q)
    obtain b g a where q: "q = (b, g, a)" by (cases q)
    note f = Some [unfolded q]
    note parts = find_tag_parts [OF f "1.prems"(1)]
    let ?r = "trim g"
    from "1.prems"(2) obtain S' where b: "60 \<notin> set b" and n: "strict_next S ?r = Some S'"
      and w: "wellformed_from S' (a @ rest)"
      unfolding wellformed_Some [OF find_tag_append [OF f]] by blast
    from strict_next_push_pop [OF n] have pp: "push_pop strict_xml S ?r = S'" .
    from n have r: "?r \<noteq> []" by (auto simp: strict_next_def)
    let ?C = "concat (map closing_tag (open_tags strict_xml S' a))"
    from "1.prems"(4) parts(7,8) set_trim [of g]
    have va: "\<forall>c\<in>set a. visible c" and vg: "\<forall>c\<in>set ?r. visible c" by auto
    from push_pop_okname [OF "1.prems"(3) parts(4) vg, of strict_xml] pp
    have ok: "\<forall>n\<in>set S'. okname n" by simp
    from "1.hyps" [OF f refl refl parts(5), unfolded pp, OF w ok va]
    have IH: "wellformed_from S' (retag a @ ?C)" .
    have "find_tag (b @ 60 # ?r @ 62 # (retag a @ ?C)) = Some (b @ [], ?r, retag a @ ?C)"
      by (simp only: find_tag_plain [OF parts(1)] find_tag_here [OF r parts(4)]) simp
    then have f': "find_tag (retag p @ concat (map closing_tag (open_tags strict_xml S p)))
        = Some (b, ?r, retag a @ ?C)"
      by (simp add: retag_Some [OF f] open_tags_Some [OF f] pp)
    from IH b n show ?thesis
      unfolding wellformed_Some [OF f'] by (simp add: trim_trim)
  qed
qed

lemma strict_xml_mode: "fixUnclosed strict_xml p = fixXMLorHTML strict_xml p"
  by (simp add: fixUnclosed_def mode_of_def strict_xml_def js_def)

lemma repair_wellformed:
  assumes "xml_wellformed d" "prefix p d" "close_half_tag p = p" "strip_invisible p = p"
  shows "xml_wellformed (fixUnclosed strict_xml p)"
proof -
  from assms(2) obtain rest where d: "d = p @ rest" by (auto simp: prefix_def)
  from assms(3) have c: "complete p"
    using close_half_tag_facts(1) [of p] by simp
  from assms(4) have v: "\<forall>c\<in>set p. visible c"
    using strip_invisible_visible [of p] by simp
  from assms(1) d have "wellformed_from [] (p @ rest)" by (simp add: xml_wellformed_def)
  from wellformed_repair [OF c this _ v] show ?thesis
    by (simp add: xml_wellformed_def strict_xml_mode fixXMLorHTML_eq assms(3,4))
qed


section \<open>Well-formedness and idempotence of the repair\<close>











section \<open>Properties of the JSON repair\<close>

subsection \<open>The recogniser\<close>

lemmas step_defs = value_start_def after_value_def json_ws_def digit_def hexdigit_def

lemma run_reject: "foldl json_step (Reject, st) u = (Reject, st)"
  by (induction u) simp_all

lemma run_reject': "\<not> viable \<sigma> \<Longrightarrow> \<not> viable (foldl json_step \<sigma> u)"
  by (cases \<sigma>) (simp add: run_reject)

lemma viable_prefix: "viable (foldl json_step \<sigma> (u @ v)) \<Longrightarrow> viable (foldl json_step \<sigma> u)"
  using run_reject' [of "foldl json_step \<sigma> u" v] by auto

lemma viable_step: "viable (foldl json_step \<sigma> (c # u)) \<Longrightarrow> viable (json_step \<sigma> c)"
  using viable_prefix [of \<sigma> "[c]" u] by simp

lemma good_step: "good \<sigma> \<Longrightarrow> good (json_step \<sigma> c)"
proof -
  obtain tok st where s: "\<sigma> = (tok, st)" by (cases \<sigma>)
  assume "good \<sigma>"
  then show ?thesis unfolding s
    by (cases tok) (auto simp: step_defs js_def split: list.splits container.splits)
qed

lemma good_run: "good \<sigma> \<Longrightarrow> good (foldl json_step \<sigma> u)"
  by (induction u arbitrary: \<sigma>) (simp_all add: good_step)

lemma good_json_run: "good (json_run u)"
  by (simp add: json_run_def good_run)


subsection \<open>Code units that only a string accepts\<close>

lemma invisible_step:
  assumes "\<not> visible c" "good \<sigma>" "viable (json_step \<sigma> c)"
  shows "json_step \<sigma> c = \<sigma>"
proof -
  obtain tok st where s: "\<sigma> = (tok, st)" by (cases \<sigma>)
  from assms(1) have c: "8203 \<le> c" by (auto simp: visible_def)
  from assms(2,3) c show ?thesis unfolding s
    by (cases tok) (auto simp: step_defs split: list.splits container.splits if_splits)
qed

lemma run_filter_visible:
  "good \<sigma> \<Longrightarrow> viable (foldl json_step \<sigma> u) \<Longrightarrow>
     foldl json_step \<sigma> (filter visible u) = foldl json_step \<sigma> u"
proof (induction u arbitrary: \<sigma>)
  case Nil
  show ?case by simp
next
  case (Cons c u)
  from viable_step [OF Cons.prems(2)] have v: "viable (json_step \<sigma> c)" .
  show ?case
  proof (cases "visible c")
    case True
    with Cons.IH [OF good_step [OF Cons.prems(1)], of c] Cons.prems(2) show ?thesis by simp
  next
    case False
    from invisible_step [OF False Cons.prems(1) v] have e: "json_step \<sigma> c = \<sigma>" .
    with Cons.IH [OF Cons.prems(1)] Cons.prems(2) False show ?thesis by simp
  qed
qed

lemma strip_invisible_filter: "strip_invisible u = filter visible u"
  by (induction u) (auto simp: strip_invisible_def visible_def)

subsection \<open>Commas before a closer\<close>

lemma comma_step:
  assumes "good \<sigma>" "viable (json_step \<sigma> 44)"
  shows "(\<exists>k. fst \<sigma> = InStr k \<and> json_step \<sigma> 44 = \<sigma>) \<or>
         (value_done (fst \<sigma>) \<and> snd (json_step \<sigma> 44) = snd \<sigma> \<and>
          (fst (json_step \<sigma> 44) = Value \<or> fst (json_step \<sigma> 44) = Key))"
proof -
  obtain tok st where s: "\<sigma> = (tok, st)" by (cases \<sigma>)
  from assms show ?thesis unfolding s
    by (cases tok) (auto simp: step_defs value_done_def split: list.splits container.splits if_splits)
qed

lemma space_step:
  assumes "is_space c" "viable (json_step (tok, st) c)" "tok = Value \<or> tok = Key \<or> tok = InStr k"
  shows "json_step (tok, st) c = (tok, st)"
  using assms by (auto simp: step_defs is_space_def split: if_splits)

lemma closer_rejected:
  assumes "c = 125 \<or> c = 93" "tok = Value \<or> tok = Key"
  shows "\<not> viable (json_step (tok, st) c)"
  using assms by (auto simp: step_defs)

lemma closer_follows_rejected:
  "closer_follows u \<Longrightarrow> tok = Value \<or> tok = Key \<Longrightarrow> \<not> viable (foldl json_step (tok, st) u)"
proof (induction u)
  case Nil
  then show ?case by (simp add: closer_follows_def)
next
  case (Cons c u)
  show ?case
  proof (cases "is_space c")
    case True
    with Cons.prems(1) have cf: "closer_follows u" by (simp add: closer_follows_def)
    show ?thesis
    proof (cases "viable (json_step (tok, st) c)")
      case True
      from space_step [OF \<open>is_space c\<close> True, of False] Cons.prems(2)
      have "json_step (tok, st) c = (tok, st)" by auto
      with Cons.IH [OF cf Cons.prems(2)] show ?thesis by simp
    next
      case False
      then show ?thesis using run_reject' [of "json_step (tok, st) c" u] by simp
    qed
  next
    case False
    with Cons.prems(1) have "c = 125 \<or> c = 93" by (simp add: closer_follows_def)
    from closer_rejected [OF this Cons.prems(2), of st]
    show ?thesis using run_reject' [of "json_step (tok, st) c" u] by simp
  qed
qed

lemma run_stripTrailingCommas:
  "good \<sigma> \<Longrightarrow> viable (foldl json_step \<sigma> u) \<Longrightarrow>
     foldl json_step \<sigma> (stripTrailingCommas u) = foldl json_step \<sigma> u"
proof (induction u arbitrary: \<sigma>)
  case Nil
  show ?case by simp
next
  case (Cons c u)
  from viable_step [OF Cons.prems(2)] have v: "viable (json_step \<sigma> c)" .
  note IH = Cons.IH [OF good_step [OF Cons.prems(1)], of c]
  show ?case
  proof (cases "c = 44 \<and> closer_follows u")
    case False
    with IH Cons.prems(2) show ?thesis by auto
  next
    case True
    then have c: "c = 44" and cf: "closer_follows u" by simp_all
    from comma_step [OF Cons.prems(1) v [unfolded c]]
    have "json_step \<sigma> 44 = \<sigma>"
    proof
      assume "\<exists>k. fst \<sigma> = InStr k \<and> json_step \<sigma> 44 = \<sigma>"
      then show ?thesis by blast
    next
      assume a: "value_done (fst \<sigma>) \<and> snd (json_step \<sigma> 44) = snd \<sigma> \<and>
          (fst (json_step \<sigma> 44) = Value \<or> fst (json_step \<sigma> 44) = Key)"
      obtain tok st where t: "json_step \<sigma> 44 = (tok, st)" by (cases "json_step \<sigma> 44")
      with a have "tok = Value \<or> tok = Key" by simp
      from closer_follows_rejected [OF cf this, of st] Cons.prems(2) c t
      show ?thesis by simp
    qed
    with Cons.IH [OF Cons.prems(1), of ] Cons.prems(2) True show ?thesis by simp
  qed
qed

lemma stripTrailingCommas_snoc_comma:
  "stripTrailingCommas (u @ [44]) = stripTrailingCommas u @ [44]"
proof (induction u)
  case Nil
  show ?case by (simp add: closer_follows_def is_space_def)
next
  case (Cons c u)
  have "closer_follows (u @ [44]) = closer_follows u"
  proof (cases "\<forall>x\<in>set u. is_space x")
    case True
    then have a: "dropWhile is_space u = []" by simp
    have n: "\<not> is_space 44" by (simp add: is_space_def)
    from True n have b: "dropWhile is_space (u @ [44]) = [44]"
      by (simp add: dropWhile_append2)
    show ?thesis by (simp only: closer_follows_def a b) simp
  next
    case False
    then obtain x where x: "x \<in> set u" "\<not> is_space x" by blast
    then have 1: "dropWhile is_space (u @ [44]) = dropWhile is_space u @ [44]"
      by (rule dropWhile_append1)
    from x have "dropWhile is_space u \<noteq> []" by (auto simp: dropWhile_eq_Nil_conv)
    then show ?thesis
      by (cases "dropWhile is_space u") (simp_all add: closer_follows_def 1)
  qed
  with Cons show ?case by simp
qed


subsection \<open>The bracket scan follows the automaton\<close>

lemma outside_other:
  assumes "\<not> in_str tok" "c \<noteq> 34" "c \<noteq> 91" "c \<noteq> 123" "c \<noteq> 93" "c \<noteq> 125"
    "viable (json_step (tok, st) c)"
  shows "\<not> in_str (fst (json_step (tok, st) c)) \<and> snd (json_step (tok, st) c) = st"
  using assms
  by (cases tok) (simp_all add: step_defs split: list.splits container.splits if_splits)

lemma inside_step:
  assumes "in_str tok" "viable (json_step (tok, st) c)"
  shows "in_str (fst (json_step (tok, st) c)) = (is_esc tok \<or> c \<noteq> 34) \<and>
         snd (json_step (tok, st) c) = st \<and>
         is_esc (fst (json_step (tok, st) c)) = (\<not> is_esc tok \<and> c = 92)"
  using assms
  by (cases tok) (auto simp: step_defs split: if_splits)

lemma outside_quote:
  assumes "\<not> in_str tok" "viable (json_step (tok, st) 34)" "good (tok, st)"
  shows "\<exists>k. json_step (tok, st) 34 = (InStr k, st)"
  using assms
  by (cases tok) (auto simp: step_defs split: list.splits container.splits if_splits)

lemma outside_open_91:
  assumes "\<not> in_str tok" "viable (json_step (tok, st) 91)" "good (tok, st)"
  shows "\<not> in_str (fst (json_step (tok, st) 91)) \<and> snd (json_step (tok, st) 91) = InArray # st"
  using assms
  by (cases tok) (auto simp: step_defs split: list.splits container.splits if_splits)

lemma outside_open_123:
  assumes "\<not> in_str tok" "viable (json_step (tok, st) 123)" "good (tok, st)"
  shows "\<not> in_str (fst (json_step (tok, st) 123)) \<and> snd (json_step (tok, st) 123) = InObject # st"
  using assms
  by (cases tok) (auto simp: step_defs split: list.splits container.splits if_splits)

lemma outside_close_93:
  assumes "\<not> in_str tok" "viable (json_step (tok, st) 93)" "good (tok, st)"
  shows "\<not> in_str (fst (json_step (tok, st) 93)) \<and> st \<noteq> [] \<and> hd st = InArray \<and>
         snd (json_step (tok, st) 93) = tl st"
  using assms
  by (cases tok) (auto simp: step_defs split: list.splits container.splits if_splits)

lemma outside_close_125:
  assumes "\<not> in_str tok" "viable (json_step (tok, st) 125)" "good (tok, st)"
  shows "\<not> in_str (fst (json_step (tok, st) 125)) \<and> st \<noteq> [] \<and> hd st = InObject \<and>
         snd (json_step (tok, st) 125) = tl st"
  using assms
  by (cases tok) (auto simp: step_defs split: list.splits container.splits if_splits)

lemma sim_step:
  assumes "good \<sigma>" "viable (json_step \<sigma> c)" "sim \<sigma> j"
  shows "sim (json_step \<sigma> c) (jscan_step j c)"
proof -
  obtain tok st where s: "\<sigma> = (tok, st)" by (cases \<sigma>)
  note v = assms(2) [unfolded s]
  note g = assms(1) [unfolded s]
  from assms(3) have j: "stack j = map bracket_of st" "inString j = in_str tok"
    "in_str tok \<Longrightarrow> escaped j = is_esc tok"
    by (simp_all add: sim_def s)
  show ?thesis
  proof (cases "in_str tok")
    case True
    from inside_step [OF True v] j True show ?thesis
      unfolding s by (auto simp: sim_def jscan_step_def)
  next
    case False
    consider "c = 34" | "c = 91" | "c = 123" | "c = 93" | "c = 125"
      | "c \<noteq> 34" "c \<noteq> 91" "c \<noteq> 123" "c \<noteq> 93" "c \<noteq> 125"
      by blast
    then show ?thesis
    proof cases
      case 1
      from outside_quote [OF False v [unfolded 1] g] j False show ?thesis
        unfolding s 1 by (auto simp: sim_def jscan_step_def)
    next
      case 2
      from outside_open_91 [OF False v [unfolded 2] g] j False show ?thesis
        unfolding s 2 by (simp add: sim_def jscan_step_def bracket_of_def)
    next
      case 3
      from outside_open_123 [OF False v [unfolded 3] g] j False show ?thesis
        unfolding s 3 by (simp add: sim_def jscan_step_def bracket_of_def)
    next
      case 4
      from outside_close_93 [OF False v [unfolded 4] g] j False show ?thesis
        unfolding s 4 by (simp add: sim_def jscan_step_def bracket_of_def hd_map map_tl)
    next
      case 5
      from outside_close_125 [OF False v [unfolded 5] g] j False show ?thesis
        unfolding s 5 by (simp add: sim_def jscan_step_def bracket_of_def hd_map map_tl)
    next
      case 6
      from outside_other [OF False 6 v] j False 6 show ?thesis
        unfolding s by (simp add: sim_def jscan_step_def)
    qed
  qed
qed

lemma sim_run:
  "good \<sigma> \<Longrightarrow> viable (foldl json_step \<sigma> u) \<Longrightarrow> sim \<sigma> j \<Longrightarrow>
     sim (foldl json_step \<sigma> u) (foldl jscan_step j u)"
proof (induction u arbitrary: \<sigma> j)
  case Nil
  then show ?case by simp
next
  case (Cons c u)
  from viable_step [OF Cons.prems(2)] have v: "viable (json_step \<sigma> c)" .
  from Cons.IH [OF good_step [OF Cons.prems(1)] _ sim_step [OF Cons.prems(1) v Cons.prems(3)]]
    Cons.prems(2)
  show ?case by simp
qed

lemma sim_json_run:
  "viable (json_run u) \<Longrightarrow> sim (json_run u) (foldl jscan_step jscan_init u)"
  unfolding json_run_def
  by (rule sim_run) (simp_all add: sim_def jscan_init_def)

subsection \<open>Closing what is open\<close>

lemma close_one:
  "value_done tok \<Longrightarrow>
     json_step (tok, c # st) (closing_bracket (bracket_of c)) = (After, st)"
  by (cases c) (auto simp: value_done_def step_defs closing_bracket_def bracket_of_def)

lemma close_all:
  "value_done tok \<Longrightarrow>
     \<exists>tok'. foldl json_step (tok, st) (map closing_bracket (map bracket_of st)) = (tok', []) \<and>
            value_done tok'"
proof (induction st arbitrary: tok)
  case Nil
  then show ?case by simp
next
  case (Cons c st)
  have "value_done After" by (simp add: value_done_def)
  from Cons.IH [OF this] close_one [OF Cons.prems] show ?case by simp
qed

lemma close_all_start:
  assumes "tok = ArrayStart \<or> tok = ObjectStart" "good (tok, st)"
  shows "\<exists>tok'. foldl json_step (tok, st) (map closing_bracket (map bracket_of st)) = (tok', []) \<and>
            value_done tok'"
proof -
  from assms obtain c st' where st: "st = c # st'" by (cases st) auto
  have "json_step (tok, st) (closing_bracket (bracket_of c)) = (After, st')"
    using assms st by (auto simp: step_defs closing_bracket_def bracket_of_def)
  moreover have "value_done After" by (simp add: value_done_def)
  ultimately show ?thesis using close_all [of After st'] st by simp
qed

subsection \<open>The comma at the end\<close>

lemma strip_final_comma_quote: "strip_final_comma (u @ [34]) = u @ [34]"
  by (simp add: strip_final_comma_def is_space_def)

lemma strip_final_comma_comma: "strip_final_comma (u @ [44]) = u"
  by (simp add: strip_final_comma_def is_space_def)

lemma space_run:
  "\<forall>x\<in>set ws. is_space x \<Longrightarrow> viable (foldl json_step (tok, st) ws) \<Longrightarrow>
   tok = Value \<or> tok = Key \<or> tok = InStr k \<Longrightarrow> foldl json_step (tok, st) ws = (tok, st)"
proof (induction ws)
  case Nil
  show ?case by simp
next
  case (Cons c ws)
  from viable_step [OF Cons.prems(2)] have "viable (json_step (tok, st) c)" .
  from space_step [OF _ this Cons.prems(3)] Cons.prems(1)
  have "json_step (tok, st) c = (tok, st)" by simp
  with Cons show ?case by simp
qed

lemma strip_final_comma_keeps:
  assumes "viable (json_run u)" "value_done (fst (json_run u)) \<or>
      fst (json_run u) = ArrayStart \<or> fst (json_run u) = ObjectStart"
  shows "strip_final_comma u = u"
proof (cases "dropWhile is_space (rev u)")
  case Nil
  show ?thesis unfolding strip_final_comma_def Nil by simp
next
  case (Cons c r)
  show ?thesis
  proof (cases "c = 44")
    case False
    with Cons show ?thesis by (simp add: strip_final_comma_def)
  next
    case True
    define ws where "ws = rev (takeWhile is_space (rev u))"
    have "rev u = takeWhile is_space (rev u) @ 44 # r"
      using Cons True takeWhile_dropWhile_id [of is_space "rev u"] by simp
    then have "rev (rev u) = rev (takeWhile is_space (rev u) @ 44 # r)" by simp
    then have u: "u = (rev r @ [44]) @ ws" by (simp add: ws_def)
    have ws: "\<forall>x\<in>set ws. is_space x"
      by (auto simp: ws_def dest: set_takeWhileD)
    define \<sigma> where "\<sigma> = json_run (rev r)"
    have g: "good \<sigma>" by (simp add: \<sigma>_def good_json_run)
    have run: "json_run u = foldl json_step (json_step \<sigma> 44) ws"
      by (subst u) (simp add: json_run_def \<sigma>_def)
    with assms(1) have v: "viable (foldl json_step (json_step \<sigma> 44) ws)" by simp
    then have vc: "viable (json_step \<sigma> 44)"
      using run_reject' [of "json_step \<sigma> 44" ws] by auto
    obtain tok st where t: "json_step \<sigma> 44 = (tok, st)" by (cases "json_step \<sigma> 44")
    from comma_step [OF g vc] t have "tok = Value \<or> tok = Key \<or> (\<exists>k. tok = InStr k)"
      by auto
    then obtain k where "tok = Value \<or> tok = Key \<or> tok = InStr k" by auto
    from space_run [OF ws v [unfolded t] this] run t
    have "json_run u = (tok, st)" by simp
    with \<open>tok = Value \<or> tok = Key \<or> tok = InStr k\<close> assms(2) show ?thesis
      by (auto simp: value_done_def)
  qed
qed


subsection \<open>Repairing a resumable prefix\<close>

lemma json_accepts_run:
  "json_accepts u = (value_done (fst (json_run u)) \<and> snd (json_run u) = [])"
  by (auto simp: json_accepts_def json_final_def json_run_def value_done_def)

lemma value_done_viable: "value_done tok \<Longrightarrow> tok \<noteq> Reject"
  by (auto simp: value_done_def)

lemma json_run_append: "json_run (u @ w) = foldl json_step (json_run u) w"
  by (simp add: json_run_def)

lemma json_run_strip:
  assumes "viable (json_run u)"
  shows "json_run (stripTrailingCommas (strip_invisible u)) = json_run u"
proof -
  have 1: "json_run (strip_invisible u) = json_run u"
    using assms unfolding json_run_def strip_invisible_filter
    by (intro run_filter_visible) simp_all
  with assms have "viable (json_run (strip_invisible u))" by simp
  then have "json_run (stripTrailingCommas (strip_invisible u)) = json_run (strip_invisible u)"
    unfolding json_run_def by (intro run_stripTrailingCommas) simp_all
  with 1 show ?thesis by simp
qed

lemma json_run_stripTrailingCommas:
  "viable (json_run u) \<Longrightarrow> json_run (stripTrailingCommas u) = json_run u"
  unfolding json_run_def by (intro run_stripTrailingCommas) simp_all

lemma accepted_closed:
  assumes "json_run u = (tok, st)"
    "value_done tok \<or> tok = ArrayStart \<or> tok = ObjectStart"
  shows "json_accepts (u @ map closing_bracket (map bracket_of st))"
proof -
  have "\<exists>tok'. foldl json_step (tok, st) (map closing_bracket (map bracket_of st)) = (tok', []) \<and>
      value_done tok'"
  proof (cases "value_done tok")
    case True
    then show ?thesis by (rule close_all)
  next
    case False
    with assms(2) have t: "tok = ArrayStart \<or> tok = ObjectStart" by simp
    from good_json_run [of u] assms(1) have "good (tok, st)" by simp
    from close_all_start [OF t this] show ?thesis .
  qed
  then show ?thesis
    by (auto simp: json_accepts_run json_run_append assms(1))
qed

lemma fixJSONStructure_accepted:
  assumes v: "viable (json_run raw)" and r: "resumable raw"
  shows "json_accepts (fixJSONStructure raw)"
proof -
  define t1 where "t1 = stripTrailingCommas (strip_invisible raw)"
  define j where "j = foldl jscan_step jscan_init t1"
  obtain tok st where run: "json_run raw = (tok, st)" by (cases "json_run raw")
  have run1: "json_run t1 = (tok, st)"
    using json_run_strip [OF v] run by (simp add: t1_def)
  with v run have v1: "viable (json_run t1)" by simp
  from sim_json_run [OF v1] run1
  have j: "stack j = map bracket_of st" "inString j = in_str tok"
    by (simp_all add: sim_def j_def)
  have fixed: "fixJSONStructure raw =
      stripTrailingCommas (strip_final_comma (if inString j then t1 @ [34] else t1)) @
      map closing_bracket (map bracket_of st)"
    unfolding j(1) [symmetric] unfolding fixJSONStructure_def Let_def j_def t1_def by simp
  from r run consider
      (string) "tok = InStr False"
    | (ready) "value_done tok \<or> tok = ArrayStart \<or> tok = ObjectStart"
    | (comma) "tok = Value \<or> tok = Key" "raw \<noteq> []" "last raw = 44"
    by (auto simp: resumable_def)
  then show ?thesis
  proof cases
    case string
    have run2: "json_run (t1 @ [34]) = (After, st)"
      by (simp add: json_run_append run1 string)
    then have "json_run (stripTrailingCommas (t1 @ [34])) = (After, st)"
      using json_run_stripTrailingCommas [of "t1 @ [34]"] by simp
    from accepted_closed [OF this] string j show ?thesis
      by (simp add: fixed strip_final_comma_quote value_done_def)
  next
    case ready
    then have n: "\<not> in_str tok" by (auto simp: value_done_def)
    from ready run1 v1 have k: "strip_final_comma t1 = t1"
      by (intro strip_final_comma_keeps) simp_all
    from json_run_stripTrailingCommas [OF v1] run1
    have "json_run (stripTrailingCommas t1) = (tok, st)" by simp
    from accepted_closed [OF this ready] n j show ?thesis
      by (simp add: fixed k)
  next
    case comma
    then have n: "\<not> in_str tok" by auto
    define raw' where "raw' = butlast raw"
    from comma have raw: "raw = raw' @ [44]"
      using append_butlast_last_id [of raw] by (simp add: raw'_def)
    define t1' where "t1' = stripTrailingCommas (strip_invisible raw')"
    have "visible 44" by (simp add: visible_def)
    then have t1: "t1 = t1' @ [44]"
      by (simp add: t1_def t1'_def raw strip_invisible_filter stripTrailingCommas_snoc_comma)
    from v have v': "viable (json_run raw')"
      unfolding raw json_run_def by (rule viable_prefix)
    obtain tok' st' where run': "json_run raw' = (tok', st')" by (cases "json_run raw'")
    from run' run have step: "json_step (tok', st') 44 = (tok, st)"
      by (simp add: raw json_run_append)
    have g: "good (tok', st')" using good_json_run [of raw'] run' by simp
    from comma_step [OF g] step comma(1) have d: "value_done tok'" "st' = st"
      by auto
    have "json_run t1' = (tok', st')"
      using json_run_strip [OF v'] run' by (simp add: t1'_def)
    moreover from this d have "viable (json_run t1')" by (simp add: value_done_viable)
    ultimately have "json_run (stripTrailingCommas t1') = (tok', st)"
      using json_run_stripTrailingCommas [of t1'] d by simp
    from accepted_closed [OF this] d n j show ?thesis
      by (simp add: fixed t1 strip_final_comma_comma)
  qed
qed

lemma json_run_trimStart:
  "viable (foldl json_step (Value, []) p) \<Longrightarrow>
     foldl json_step (Value, []) (dropWhile is_space p) = foldl json_step (Value, []) p"
proof (induction p)
  case Nil
  show ?case by simp
next
  case (Cons c p)
  show ?case
  proof (cases "is_space c")
    case True
    from viable_step [OF Cons.prems] have "viable (json_step (Value, []) c)" .
    from space_step [OF True this, of False] have "json_step (Value, []) c = (Value, [])" by simp
    with Cons True show ?thesis by simp
  next
    case False
    then show ?thesis by simp
  qed
qed

lemma viable_trim: "viable (json_run p) \<Longrightarrow> viable (json_run (trim p))"
proof -
  assume v: "viable (json_run p)"
  define q where "q = dropWhile is_space p"
  from v have vq: "viable (json_run q)"
    using json_run_trimStart [of p] by (simp add: json_run_def q_def)
  have "q = rev (rev q)" by simp
  also have "\<dots> = rev (takeWhile is_space (rev q) @ dropWhile is_space (rev q))"
    by (simp only: takeWhile_dropWhile_id)
  also have "\<dots> = rev (dropWhile is_space (rev q)) @ rev (takeWhile is_space (rev q))"
    by (simp only: rev_append)
  also have "rev (dropWhile is_space (rev q)) = trim p"
    by (simp add: trim_def trimStart_def trimEnd_def q_def)
  finally have "q = trim p @ rev (takeWhile is_space (rev q))" .
  with vq show ?thesis
    unfolding json_run_def using viable_prefix by metis
qed

lemma resumable_nonempty: "resumable raw \<Longrightarrow> raw \<noteq> []"
  by (auto simp: resumable_def json_run_def value_done_def)

lemma fixJSON_prefix_accepted:
  assumes "json_accepts d" "prefix p d" "resumable (trim p)"
  shows "json_accepts (fixJSON p)"
proof -
  from assms(1) have "viable (json_run d)"
    by (auto simp: json_accepts_run dest: value_done_viable)
  with assms(2) have "viable (json_run p)"
    unfolding json_run_def by (auto simp: prefix_def dest: viable_prefix)
  then have "viable (json_run (trim p))" by (rule viable_trim)
  from fixJSONStructure_accepted [OF this assms(3)] resumable_nonempty [OF assms(3)]
  show ?thesis
    by (auto simp: fixJSON_cases JSON_parse_accepts)
qed


text \<open>
  C1, amended. For every string that is a prefix of a well-formed JSON document and
  whose trimmed form ends where the repair can resume (after a complete value, directly
  after an opening bracket or brace, after a comma, or inside a string that is a value),
  \<open>fixJSON\<close> returns a string accepted by \<open>JSON.parse\<close>.
\<close>

theorem fixJSON_repairs_resumable_prefix:
  assumes "JSON_parse d = Inr ()" "prefix p d" "resumable (trim p)"
  shows "JSON_parse (fixJSON p) = Inr ()"
  using fixJSON_prefix_accepted [of d p] assms by (simp add: JSON_parse_accepts)

theorem fixJSON_repairs_resumable_prefix_witness:
  \<open>JSON_parse (js ''{"a": [1, "xy"]}'') = Inr () \<and>
   prefix (js ''{"a": [1, "x'') (js ''{"a": [1, "xy"]}'') \<and>
   resumable (trim (js ''{"a": [1, "x'')) \<and>
   fixJSON (js ''{"a": [1, "x'') = js ''{"a": [1, "x"]}'' \<and>
   JSON_parse (js ''{"a": [1, "x"]}'') = Inr ()\<close>
proof -
  have 1: \<open>JSON_parse (js ''{"a": [1, "xy"]}'') = Inr ()\<close>
    by (simp add: js_def json_defs)
  have 2: \<open>prefix (js ''{"a": [1, "x'') (js ''{"a": [1, "xy"]}'')\<close>
    by (simp add: js_def)
  have 3: \<open>resumable (trim (js ''{"a": [1, "x''))\<close>
    by (simp add: string_defs resumable_def json_run_def value_done_def step_defs)
  have 4: \<open>fixJSON (js ''{"a": [1, "x'') = js ''{"a": [1, "x"]}''\<close>
    by (simp add: string_defs json_defs repair_defs)
  from fixJSON_repairs_resumable_prefix [OF 1 2 3]
  have \<open>JSON_parse (js ''{"a": [1, "x"]}'') = Inr ()\<close>
    by (simp only: 4)
  with 1 2 3 4 show ?thesis by blast
qed

end
